theory Spec2Isabelle
  imports Complex_Main "HOL-Library.Word" "HOL-Library.Log_Nat"
begin

section \<open>JavaScript numbers\<close>

text \<open>
  Every number in \<^verbatim>\<open>useMotionDetection\<close> is an IEEE-754 binary64 value. A finite double
  is represented by the rational it denotes; \<open>NaN\<close> is what arithmetic on \<^verbatim>\<open>undefined\<close>
  (a typed-array read past the end) produces. Each arithmetic operation computes the exact
  rational result and rounds it to the nearest double, ties to even (\<open>to_double\<close>).
  The exponent range is not bounded in this model: the operands of the hook are bytes, a
  sensitivity and the 32-bit video dimensions, so no operation overflows or underflows.
\<close>

datatype jsnum = NaN | Num rat

definition round_half_even :: "rat \<Rightarrow> int" where
  "round_half_even y =
     (let f = \<lfloor>y\<rfloor>; r = y - of_int f
      in if r < 1 / 2 then f else if 1 / 2 < r then f + 1 else if even f then f else f + 1)"

text \<open>\<open>ilog2 x\<close> is the binary exponent of a positive \<open>x\<close>: \<open>2 powi ilog2 x \<le> x < 2 powi (ilog2 x + 1)\<close>.\<close>

definition ilog2 :: "rat \<Rightarrow> int" where
  "ilog2 x = (if 1 \<le> x then bitlen \<lfloor>x\<rfloor> - 1 else - bitlen (\<lceil>1 / x\<rceil> - 1))"

text \<open>Rounding to a 53-bit significand.\<close>

definition to_double :: "rat \<Rightarrow> rat" where
  "to_double x =
     (if x = 0 then 0
      else let e = ilog2 \<bar>x\<bar> - 52
           in of_int (round_half_even (x / 2 powi e)) * 2 powi e)"

fun dadd :: "jsnum \<Rightarrow> jsnum \<Rightarrow> jsnum" where
  "dadd (Num a) (Num b) = Num (to_double (a + b))"
| "dadd _ _ = NaN"

fun dsub :: "jsnum \<Rightarrow> jsnum \<Rightarrow> jsnum" where
  "dsub (Num a) (Num b) = Num (to_double (a - b))"
| "dsub _ _ = NaN"

fun dmul :: "jsnum \<Rightarrow> jsnum \<Rightarrow> jsnum" where
  "dmul (Num a) (Num b) = Num (to_double (a * b))"
| "dmul _ _ = NaN"

text \<open>
  The only divisors in the source are the literals \<^verbatim>\<open>99\<close>, \<^verbatim>\<open>3\<close> and
  \<^verbatim>\<open>resolution = 4\<close>; the zero-divisor branch is never reached by the hook.
\<close>

fun ddiv :: "jsnum \<Rightarrow> jsnum \<Rightarrow> jsnum" where
  "ddiv (Num a) (Num b) = (if b = 0 then NaN else Num (to_double (a / b)))"
| "ddiv _ _ = NaN"

text \<open>\<^verbatim>\<open>Math.abs\<close> and \<^verbatim>\<open>>\<close>: a comparison with \<open>NaN\<close> is false.\<close>

fun dabs :: "jsnum \<Rightarrow> jsnum" where
  "dabs (Num a) = Num \<bar>a\<bar>"
| "dabs NaN = NaN"

fun dgt :: "jsnum \<Rightarrow> jsnum \<Rightarrow> bool" where
  "dgt (Num a) (Num b) = (b < a)"
| "dgt _ _ = False"

section \<open>Frames and the change estimator\<close>

text \<open>
  \<^verbatim>\<open>ImageData\<close>: the \<^verbatim>\<open>Uint8ClampedArray\<close> \<open>data\<close> holds four bytes (RGBA) per pixel.
\<close>

record ImageData =
  width :: nat
  height :: nat
  data :: "8 word list"

text \<open>
  Reading a typed array: an index past the end yields \<^verbatim>\<open>undefined\<close>, which \<^verbatim>\<open>+\<close>
  turns into \<open>NaN\<close>; nothing is raised.
\<close>

definition tget :: "8 word list \<Rightarrow> nat \<Rightarrow> jsnum" where
  "tget xs i = (if i < length xs then Num (of_nat (unat (xs ! i))) else NaN)"

definition resolution :: nat where
  "resolution = 4"

text \<open>\<^verbatim>\<open>50 - ((sensitivityRef.current - 1) / 99) * 45\<close>\<close>

definition pixelDiffThreshold :: "jsnum \<Rightarrow> jsnum" where
  "pixelDiffThreshold sensitivity =
     dsub (Num 50) (dmul (ddiv (dsub sensitivity (Num 1)) (Num 99)) (Num 45))"

text \<open>The grayscale mean of the pixel starting at byte \<open>i\<close>.\<close>

definition avg :: "8 word list \<Rightarrow> nat \<Rightarrow> jsnum" where
  "avg xs i = ddiv (dadd (dadd (tget xs i) (tget xs (i + 1))) (tget xs (i + 2))) (Num 3)"

text \<open>The body of the sampling loop: \<^verbatim>\<open>diff > pixelDiffThreshold\<close> at byte offset \<open>i\<close>.\<close>

definition sample_changed :: "8 word list \<Rightarrow> 8 word list \<Rightarrow> jsnum \<Rightarrow> nat \<Rightarrow> bool" where
  "sample_changed lastData currentData thr i =
     (let avg1 = avg lastData i;
          avg2 = avg currentData i;
          diff = dabs (dsub avg1 avg2)
      in dgt diff thr)"

text \<open>
  \<^verbatim>\<open>for (let i = 0; i < currentData.length; i += 4 * resolution)\<close>, with the loop
  variable and the counter as arguments.
\<close>

function count_changed :: "8 word list \<Rightarrow> 8 word list \<Rightarrow> jsnum \<Rightarrow> nat \<Rightarrow> nat \<Rightarrow> nat" where
  "count_changed lastData currentData thr i changedPixels =
     (if i < length currentData
      then count_changed lastData currentData thr (i + 4 * resolution)
             (if sample_changed lastData currentData thr i then changedPixels + 1
              else changedPixels)
      else changedPixels)"
  by pat_completeness auto
termination
  by (relation "measure (\<lambda>(lastData, currentData, thr, i, changedPixels). length currentData - i)")
     (auto simp: resolution_def)

declare count_changed.simps [simp del]

text \<open>
  \<^verbatim>\<open>totalPixelsChecked = (width * height) / resolution\<close> and
  \<^verbatim>\<open>motionPixelThreshold = totalPixelsChecked * 0.001\<close>; the literal \<^verbatim>\<open>0.001\<close> is
  the double nearest to one thousandth.
\<close>

definition totalPixelsChecked :: "nat \<Rightarrow> nat \<Rightarrow> jsnum" where
  "totalPixelsChecked w h = ddiv (dmul (Num (of_nat w)) (Num (of_nat h))) (Num (of_nat resolution))"

definition motionPixelThreshold :: "nat \<Rightarrow> nat \<Rightarrow> jsnum" where
  "motionPixelThreshold w h = dmul (totalPixelsChecked w h) (Num (to_double (1 / 1000)))"

text \<open>\<^verbatim>\<open>changedPixels > motionPixelThreshold\<close>: the tick is classified "motion present".\<close>

definition motion_present :: "nat \<Rightarrow> nat \<Rightarrow> nat \<Rightarrow> bool" where
  "motion_present changedPixels w h = dgt (Num (of_nat changedPixels)) (motionPixelThreshold w h)"

section \<open>The hook and its host\<close>

text \<open>
  The callbacks handed to the hook are recorded in the order in which they are invoked;
  \<open>OnError\<close> carries the message of the \<^verbatim>\<open>Error\<close> it is given.
\<close>

datatype callback = OnMotionStart | OnMotionEnd | OnError string

text \<open>
  What a rejected promise can carry into the \<^verbatim>\<open>catch\<close> of \<^verbatim>\<open>setup\<close>: a
  \<^verbatim>\<open>DOMException\<close> (name, message), which is an \<^verbatim>\<open>Error\<close> as well, another
  \<^verbatim>\<open>Error\<close> (name, message), or a value that is no \<^verbatim>\<open>Error\<close> at all.
\<close>

datatype js_exception =
    DOMException string string
  | Error string string
  | Thrown

text \<open>
  What a tick reads from the video element: its playback flags, its reported size, and the
  RGBA raster that \<^verbatim>\<open>drawImage\<close> followed by \<^verbatim>\<open>getImageData(0, 0, width, height)\<close>
  reads back (four bytes per pixel).
\<close>

record video_status =
  paused :: bool
  ended :: bool
  readyState :: nat
  videoWidth :: nat
  videoHeight :: nat
  pixels :: "8 word list"

definition HAVE_ENOUGH_DATA :: nat where
  "HAVE_ENOUGH_DATA = 4"

text \<open>
  The refs and the state of the hook, followed by the part of the browser they act on.
  Streams, video elements, animation-frame requests and timeouts are named by the positive
  handles the host issues in sequence. \<open>frameRequests\<close> are the pending
  \<^verbatim>\<open>requestAnimationFrame\<close> callbacks (each is \<^verbatim>\<open>detectMotionLoop\<close>), \<open>timeouts\<close>
  the pending \<^verbatim>\<open>setTimeout\<close> callbacks with the time they fall due, \<open>liveStreams\<close>
  the camera streams whose tracks have not been stopped, \<open>srcObject\<close> the video elements
  that have a stream attached, \<open>pendingGetUserMedia\<close> the number of \<^verbatim>\<open>setup\<close> calls
  suspended at \<^verbatim>\<open>await getUserMedia\<close>, and \<open>pendingPlay\<close> the video elements whose
  \<^verbatim>\<open>setup\<close> call is suspended at \<^verbatim>\<open>await videoElement.play()\<close>.
\<close>

record hook =
  stream :: "nat option"
  videoRef :: "nat option"
  canvasRef :: "(nat \<times> nat) option"
  streamRef :: "nat option"
  requestRef :: "nat option"
  lastImageDataRef :: "ImageData option"
  motionTimeoutRef :: "nat option"
  isDetectingMotionRef :: bool
  sensitivityRef :: jsnum
  clock :: nat
  frameRequests :: "nat list"
  frameSeq :: nat
  timeouts :: "(nat \<times> nat) list"
  timeoutSeq :: nat
  liveStreams :: "nat list"
  streamSeq :: nat
  srcObject :: "(nat \<times> nat) list"
  videoSeq :: nat
  pendingGetUserMedia :: nat
  pendingPlay :: "nat list"
  callbacks :: "callback list"

text \<open>The hook as mounted: every ref empty, nothing pending.\<close>

definition mount :: "jsnum \<Rightarrow> hook" where
  "mount sensitivity =
     \<lparr>stream = None, videoRef = None, canvasRef = None, streamRef = None, requestRef = None,
      lastImageDataRef = None, motionTimeoutRef = None, isDetectingMotionRef = False,
      sensitivityRef = sensitivity, clock = 0, frameRequests = [], frameSeq = 0, timeouts = [],
      timeoutSeq = 0, liveStreams = [], streamSeq = 0, srcObject = [], videoSeq = 0,
      pendingGetUserMedia = 0, pendingPlay = [], callbacks = []\<rparr>"

subsection \<open>Host operations\<close>

definition requestAnimationFrame :: "hook \<Rightarrow> nat \<times> hook" where
  "requestAnimationFrame s =
     (let h = Suc (frameSeq s)
      in (h, s\<lparr>frameSeq := h, frameRequests := frameRequests s @ [h]\<rparr>))"

definition cancelAnimationFrame :: "nat \<Rightarrow> hook \<Rightarrow> hook" where
  "cancelAnimationFrame h s = s\<lparr>frameRequests := removeAll h (frameRequests s)\<rparr>"

definition setTimeout :: "nat \<Rightarrow> hook \<Rightarrow> nat \<times> hook" where
  "setTimeout delay s =
     (let h = Suc (timeoutSeq s)
      in (h, s\<lparr>timeoutSeq := h, timeouts := timeouts s @ [(h, clock s + delay)]\<rparr>))"

definition clearTimeout :: "nat \<Rightarrow> hook \<Rightarrow> hook" where
  "clearTimeout h s = s\<lparr>timeouts := filter (\<lambda>(i, due). i \<noteq> h) (timeouts s)\<rparr>"

text \<open>\<^verbatim>\<open>stream.getTracks().forEach((track) => track.stop())\<close>\<close>

definition stopTracks :: "nat \<Rightarrow> hook \<Rightarrow> hook" where
  "stopTracks ms s = s\<lparr>liveStreams := removeAll ms (liveStreams s)\<rparr>"

text \<open>\<^verbatim>\<open>requestRef.current = requestAnimationFrame(detectMotionLoop)\<close>\<close>

definition request_next :: "hook \<Rightarrow> hook" where
  "request_next s = (let (h, s) = requestAnimationFrame s in s\<lparr>requestRef := Some h\<rparr>)"

subsection \<open>\<^verbatim>\<open>detectMotionLoop\<close>\<close>

text \<open>The branch taken when \<^verbatim>\<open>changedPixels > motionPixelThreshold\<close>.\<close>

definition motion_detected :: "hook \<Rightarrow> hook" where
  "motion_detected s =
     (let s = (if \<not> isDetectingMotionRef s
               then s\<lparr>isDetectingMotionRef := True, callbacks := callbacks s @ [OnMotionStart]\<rparr>
               else s);
          s = (case motionTimeoutRef s of
                 Some t \<Rightarrow> if t \<noteq> 0 then clearTimeout t s else s
               | None \<Rightarrow> s);
          (t, s) = setTimeout 1000 s
      in s\<lparr>motionTimeoutRef := Some t\<rparr>)"

text \<open>The callback given to \<^verbatim>\<open>setTimeout\<close>.\<close>

definition motion_timeout :: "hook \<Rightarrow> hook" where
  "motion_timeout s = s\<lparr>isDetectingMotionRef := False, callbacks := callbacks s @ [OnMotionEnd]\<rparr>"

text \<open>
  One tick. \<open>video\<close> is what the element behind \<open>videoRef\<close> reports now, \<open>ctx\<close> whether
  \<^verbatim>\<open>canvas.getContext('2d')\<close> returned a context.
\<close>

definition detectMotionLoop :: "video_status \<Rightarrow> bool \<Rightarrow> hook \<Rightarrow> hook" where
  "detectMotionLoop video ctx s =
     (if videoRef s = None \<or> canvasRef s = None then request_next s
      else if paused video \<or> ended video \<or> readyState video < HAVE_ENOUGH_DATA
      then request_next s
      else if \<not> ctx then request_next s
      else
        let w = videoWidth video; h = videoHeight video
        in if w = 0 \<or> h = 0 then request_next s
           else
             let s = s\<lparr>canvasRef := Some (w, h)\<rparr>;
                 currentImageData = \<lparr>width = w, height = h, data = pixels video\<rparr>
             in case lastImageDataRef s of
                  None \<Rightarrow> request_next (s\<lparr>lastImageDataRef := Some currentImageData\<rparr>)
                | Some lastImageData \<Rightarrow>
                    let lastData = data lastImageData;
                        currentData = data currentImageData;
                        thr = pixelDiffThreshold (sensitivityRef s);
                        changedPixels = count_changed lastData currentData thr 0 0;
                        s = s\<lparr>lastImageDataRef := Some currentImageData\<rparr>;
                        s = (if motion_present changedPixels w h then motion_detected s else s)
                    in request_next s)"

subsection \<open>\<^verbatim>\<open>cleanup\<close> and \<^verbatim>\<open>setup\<close>\<close>

definition cleanup :: "hook \<Rightarrow> hook" where
  "cleanup s =
     (let s = (case requestRef s of
                 Some h \<Rightarrow> (cancelAnimationFrame h s)\<lparr>requestRef := None\<rparr>
               | None \<Rightarrow> s);
          s = (case motionTimeoutRef s of
                 Some t \<Rightarrow> if t \<noteq> 0 then (clearTimeout t s)\<lparr>motionTimeoutRef := None\<rparr> else s
               | None \<Rightarrow> s);
          s = (case streamRef s of
                 Some ms \<Rightarrow> (stopTracks ms s)\<lparr>streamRef := None\<rparr>
               | None \<Rightarrow> s);
          s = (case videoRef s of
                 Some v \<Rightarrow> s\<lparr>srcObject := filter (\<lambda>(v', ms). v' \<noteq> v) (srcObject s),
                            videoRef := None\<rparr>
               | None \<Rightarrow> s)
      in s\<lparr>stream := None, lastImageDataRef := None, isDetectingMotionRef := False,
           canvasRef := None\<rparr>)"

text \<open>
  \<^verbatim>\<open>setup\<close> is asynchronous. Its call (\<open>setup_call\<close>) runs \<^verbatim>\<open>cleanup\<close> and suspends at
  \<^verbatim>\<open>await getUserMedia\<close>; \<open>setup_granted\<close> is the continuation once the camera stream
  (a fresh stream with live tracks) is there, up to \<^verbatim>\<open>await videoElement.play()\<close>;
  \<open>setup_playing\<close> is the continuation after that; \<open>setup_catch\<close> is the
  \<^verbatim>\<open>catch\<close> block, entered from either \<^verbatim>\<open>await\<close>.
\<close>

definition setup_call :: "hook \<Rightarrow> hook" where
  "setup_call s = (let s = cleanup s in s\<lparr>pendingGetUserMedia := Suc (pendingGetUserMedia s)\<rparr>)"

definition setup_granted :: "hook \<Rightarrow> hook" where
  "setup_granted s =
     (let mediaStream = Suc (streamSeq s);
          s = s\<lparr>streamSeq := mediaStream, liveStreams := liveStreams s @ [mediaStream]\<rparr>;
          s = s\<lparr>stream := Some mediaStream, streamRef := Some mediaStream\<rparr>;
          videoElement = Suc (videoSeq s);
          s = s\<lparr>videoSeq := videoElement, srcObject := (videoElement, mediaStream) # srcObject s\<rparr>;
          s = s\<lparr>videoRef := Some videoElement, canvasRef := Some (300, 150)\<rparr>
      in s\<lparr>pendingPlay := pendingPlay s @ [videoElement]\<rparr>)"

definition setup_playing :: "hook \<Rightarrow> hook" where
  "setup_playing s = request_next s"

definition onError :: "string \<Rightarrow> hook \<Rightarrow> hook" where
  "onError message s = s\<lparr>callbacks := callbacks s @ [OnError message]\<rparr>"

definition setup_catch :: "js_exception \<Rightarrow> hook \<Rightarrow> hook" where
  "setup_catch err s =
     (case err of
        DOMException name message \<Rightarrow>
          if name = ''AbortError'' then s else onError message s
      | Error name message \<Rightarrow> onError message s
      | Thrown \<Rightarrow> onError ''An unknown error occurred while accessing the camera.'' s)"

text \<open>
  The effect on \<open>enabled\<close>: its body, and a re-run, before which React calls what the
  previous run returned (\<^verbatim>\<open>return cleanup\<close>).
\<close>

definition useEffect_enabled :: "bool \<Rightarrow> hook \<Rightarrow> hook" where
  "useEffect_enabled enabled s = (if enabled then setup_call s else cleanup s)"

definition enabled_changed :: "bool \<Rightarrow> hook \<Rightarrow> hook" where
  "enabled_changed enabled s = useEffect_enabled enabled (cleanup s)"

subsection \<open>Events\<close>

text \<open>
  JavaScript runs each callback to completion, so a run of the hook is a sequence of events:
  a call of \<^verbatim>\<open>setup\<close> or \<^verbatim>\<open>cleanup\<close> by the effect, the settling of a promise a
  \<^verbatim>\<open>setup\<close> call awaits, an animation frame, a timeout, the passing of time, or a new
  sensitivity. \<open>step\<close> is \<open>None\<close> for an event the host cannot deliver in that state:
  a callback fires only while it is pending and a timeout not before it is due; a
  \<^verbatim>\<open>play()\<close> promise is fulfilled only while the element still has its stream, and once
  \<^verbatim>\<open>srcObject\<close> has been set to null it is rejected with an \<^verbatim>\<open>AbortError\<close>.
\<close>

datatype event =
    Setup
  | Cleanup
  | GetUserMediaResolved
  | GetUserMediaRejected js_exception
  | PlayResolved nat
  | PlayRejected nat js_exception
  | AnimationFrame nat video_status bool
  | TimeoutFired nat
  | TimePasses nat
  | SensitivityChanged jsnum

definition is_abort :: "js_exception \<Rightarrow> bool" where
  "is_abort err = (case err of DOMException name message \<Rightarrow> name = ''AbortError'' | _ \<Rightarrow> False)"

definition has_source :: "hook \<Rightarrow> nat \<Rightarrow> bool" where
  "has_source s v = (map_of (srcObject s) v \<noteq> None)"

fun step :: "event \<Rightarrow> hook \<Rightarrow> hook option" where
  "step Setup s = Some (setup_call s)"
| "step Cleanup s = Some (cleanup s)"
| "step GetUserMediaResolved s =
     (if pendingGetUserMedia s = 0 then None
      else Some (setup_granted (s\<lparr>pendingGetUserMedia := pendingGetUserMedia s - 1\<rparr>)))"
| "step (GetUserMediaRejected err) s =
     (if pendingGetUserMedia s = 0 then None
      else Some (setup_catch err (s\<lparr>pendingGetUserMedia := pendingGetUserMedia s - 1\<rparr>)))"
| "step (PlayResolved v) s =
     (if v \<in> set (pendingPlay s) \<and> has_source s v
      then Some (setup_playing (s\<lparr>pendingPlay := removeAll v (pendingPlay s)\<rparr>))
      else None)"
| "step (PlayRejected v err) s =
     (if v \<in> set (pendingPlay s) \<and> (has_source s v \<or> is_abort err)
      then Some (setup_catch err (s\<lparr>pendingPlay := removeAll v (pendingPlay s)\<rparr>))
      else None)"
| "step (AnimationFrame h video ctx) s =
     (if h \<in> set (frameRequests s)
      then Some (detectMotionLoop video ctx (s\<lparr>frameRequests := removeAll h (frameRequests s)\<rparr>))
      else None)"
| "step (TimeoutFired h) s =
     (case map_of (timeouts s) h of
        Some due \<Rightarrow>
          if due \<le> clock s
          then Some (motion_timeout (s\<lparr>timeouts := filter (\<lambda>(i, due). i \<noteq> h) (timeouts s)\<rparr>))
          else None
      | None \<Rightarrow> None)"
| "step (TimePasses d) s = Some (s\<lparr>clock := clock s + d\<rparr>)"
| "step (SensitivityChanged x) s = Some (s\<lparr>sensitivityRef := x\<rparr>)"

fun run :: "event list \<Rightarrow> hook \<Rightarrow> hook option" where
  "run [] s = Some s"
| "run (e # es) s = (case step e s of None \<Rightarrow> None | Some s' \<Rightarrow> run es s')"

subsection \<open>Predicates on ticks and states\<close>

text \<open>A tick passes every readiness guard of \<^verbatim>\<open>detectMotionLoop\<close> and reads a frame.\<close>

definition tick_ready :: "video_status \<Rightarrow> bool \<Rightarrow> hook \<Rightarrow> bool" where
  "tick_ready video ctx s \<longleftrightarrow>
     videoRef s \<noteq> None \<and> canvasRef s \<noteq> None \<and> \<not> paused video \<and> \<not> ended video \<and>
     HAVE_ENOUGH_DATA \<le> readyState video \<and> ctx \<and> videoWidth video \<noteq> 0 \<and> videoHeight video \<noteq> 0"

text \<open>The frame a ready tick reads.\<close>

definition frame_of :: "video_status \<Rightarrow> ImageData" where
  "frame_of video = \<lparr>width = videoWidth video, height = videoHeight video, data = pixels video\<rparr>"

text \<open>\<^verbatim>\<open>getImageData\<close> returns four bytes for each of the \<open>width \<times> height\<close> pixels.\<close>

definition wf_frame :: "ImageData \<Rightarrow> bool" where
  "wf_frame img \<longleftrightarrow> length (data img) = 4 * width img * height img"

text \<open>The changed-pixel count of a tick that compares \<open>video\<close> with the retained frame.\<close>

definition changedPixels_of :: "ImageData \<Rightarrow> video_status \<Rightarrow> hook \<Rightarrow> nat" where
  "changedPixels_of lastImageData video s =
     count_changed (data lastImageData) (pixels video) (pixelDiffThreshold (sensitivityRef s)) 0 0"

text \<open>A ready tick is classified "motion present".\<close>

definition motion_tick :: "video_status \<Rightarrow> hook \<Rightarrow> bool" where
  "motion_tick video s \<longleftrightarrow>
     (case lastImageDataRef s of
        None \<Rightarrow> False
      | Some lastImageData \<Rightarrow>
          motion_present (changedPixels_of lastImageData video s) (videoWidth video) (videoHeight video))"

text \<open>
  \<open>timer_inv\<close>: every pending timeout is the one held in \<open>motionTimeoutRef\<close> (a
  positive handle). \<open>due_after t0\<close>: no pending timeout falls due earlier than one second
  after time \<open>t0\<close>.
\<close>

definition timer_inv :: "hook \<Rightarrow> bool" where
  "timer_inv s \<longleftrightarrow>
     motionTimeoutRef s \<noteq> Some 0 \<and> (\<forall>(i, due) \<in> set (timeouts s). motionTimeoutRef s = Some i)"

definition due_after :: "nat \<Rightarrow> hook \<Rightarrow> bool" where
  "due_after t0 s \<longleftrightarrow> t0 \<le> clock s \<and> (\<forall>(i, due) \<in> set (timeouts s). t0 + 1000 \<le> due)"

text \<open>
  A single session: at most one \<^verbatim>\<open>setup\<close> call is under way, and whatever is pending
  or live is what the refs hold. This is the state of the hook whenever no call of
  \<^verbatim>\<open>setup\<close> has overtaken an earlier one still waiting for the camera.
\<close>

definition single_session :: "hook \<Rightarrow> bool" where
  "single_session s \<longleftrightarrow>
     timer_inv s \<and>
     (frameRequests s = [] \<or> map Some (frameRequests s) = [requestRef s]) \<and>
     (liveStreams s = [] \<or> map Some (liveStreams s) = [streamRef s]) \<and>
     (\<forall>ms \<in> set (liveStreams s). ms \<le> streamSeq s) \<and>
     (\<forall>(v, ms) \<in> set (srcObject s). videoRef s = Some v) \<and>
     (srcObject s \<noteq> [] \<longrightarrow> liveStreams s \<noteq> []) \<and>
     (frameRequests s \<noteq> [] \<longrightarrow> liveStreams s \<noteq> []) \<and>
     (\<forall>v \<in> set (pendingPlay s). has_source s v \<longrightarrow> frameRequests s = []) \<and>
     pendingGetUserMedia s \<le> 1 \<and>
     (pendingGetUserMedia s = 1 \<longrightarrow>
        frameRequests s = [] \<and> timeouts s = [] \<and> liveStreams s = [] \<and> srcObject s = [] \<and>
        streamRef s = None)"

text \<open>Nothing is pending and no stream is live: the hook is off.\<close>

definition quiet :: "hook \<Rightarrow> bool" where
  "quiet s \<longleftrightarrow>
     frameRequests s = [] \<and> timeouts s = [] \<and> liveStreams s = [] \<and> srcObject s = [] \<and>
     pendingGetUserMedia s = 0"

subsection \<open>Sample frames and states\<close>

text \<open>
  Uniform frames of a given size and grey level; the hook after its first ready tick has
  stored \<open>video\<close> (idle, one frame request pending); and the hook one tick later, after
  a bright frame followed a dark one (active, silence timer pending).
\<close>

definition uniform :: "nat \<Rightarrow> nat \<Rightarrow> 8 word \<Rightarrow> video_status" where
  "uniform w h level =
     \<lparr>paused = False, ended = False, readyState = 4, videoWidth = w, videoHeight = h,
      pixels = replicate (4 * w * h) level\<rparr>"

definition dark :: video_status where
  "dark = uniform 2 2 0"

definition bright :: video_status where
  "bright = uniform 2 2 255"

definition seen :: "video_status \<Rightarrow> hook" where
  "seen video =
     \<lparr>stream = Some 1, videoRef = Some 1,
      canvasRef = Some (videoWidth video, videoHeight video), streamRef = Some 1,
      requestRef = Some 2, lastImageDataRef = Some (frame_of video), motionTimeoutRef = None,
      isDetectingMotionRef = False, sensitivityRef = Num 50, clock = 0, frameRequests = [2],
      frameSeq = 2, timeouts = [], timeoutSeq = 0, liveStreams = [1], streamSeq = 1,
      srcObject = [(1, 1)], videoSeq = 1, pendingGetUserMedia = 0, pendingPlay = [],
      callbacks = []\<rparr>"

definition watching :: hook where
  "watching =
     \<lparr>stream = Some 1, videoRef = Some 1, canvasRef = Some (2, 2), streamRef = Some 1,
      requestRef = Some 3, lastImageDataRef = Some (frame_of bright),
      motionTimeoutRef = Some 1, isDetectingMotionRef = True, sensitivityRef = Num 50,
      clock = 0, frameRequests = [3], frameSeq = 3, timeouts = [(1, 1000)], timeoutSeq = 1,
      liveStreams = [1], streamSeq = 1, srcObject = [(1, 1)], videoSeq = 1,
      pendingGetUserMedia = 0, pendingPlay = [], callbacks = [OnMotionStart]\<rparr>"

text \<open>
  The hook right after \<^verbatim>\<open>play()\<close> was fulfilled (no frame seen yet), while its only
  \<^verbatim>\<open>setup\<close> call waits for the camera, and after a \<^verbatim>\<open>cleanup\<close> that came while
  \<^verbatim>\<open>play()\<close> was pending.
\<close>

definition started :: hook where
  "started =
     \<lparr>stream = Some 1, videoRef = Some 1, canvasRef = Some (300, 150), streamRef = Some 1,
      requestRef = Some 1, lastImageDataRef = None, motionTimeoutRef = None,
      isDetectingMotionRef = False, sensitivityRef = Num 50, clock = 0, frameRequests = [1],
      frameSeq = 1, timeouts = [], timeoutSeq = 0, liveStreams = [1], streamSeq = 1,
      srcObject = [(1, 1)], videoSeq = 1, pendingGetUserMedia = 0, pendingPlay = [],
      callbacks = []\<rparr>"

definition acquiring :: hook where
  "acquiring = (mount (Num 50))\<lparr>pendingGetUserMedia := 1\<rparr>"

definition interrupted :: hook where
  "interrupted = (mount (Num 50))\<lparr>streamSeq := 1, videoSeq := 1, pendingPlay := [1]\<rparr>"

section \<open>Rounding lemmas\<close>

lemma round_half_even_error: "\<bar>of_int (round_half_even y) - y\<bar> \<le> 1 / 2"
  unfolding round_half_even_def Let_def by (auto simp: abs_if) linarith+

lemma round_half_even_of_int: "round_half_even (of_int z) = z"
  by (simp add: round_half_even_def)

lemma ilog2_lower:
  assumes "0 < x"
  shows "2 powi ilog2 x \<le> x"
proof (cases "1 \<le> x")
  case True
  then have pos: "0 < \<lfloor>x\<rfloor>" by linarith
  from bitlen_bounds[OF pos] have "2 ^ nat (bitlen \<lfloor>x\<rfloor> - 1) \<le> \<lfloor>x\<rfloor>" by simp
  then have "(of_int (2 ^ nat (bitlen \<lfloor>x\<rfloor> - 1)) :: rat) \<le> x"
    by (simp only: le_floor_iff)
  then have "(2::rat) ^ nat (bitlen \<lfloor>x\<rfloor> - 1) \<le> x"
    by simp
  moreover have "0 \<le> bitlen \<lfloor>x\<rfloor> - 1"
    using pos by (simp add: bitlen_alt_def)
  ultimately show ?thesis
    using True by (simp add: ilog2_def power_int_def)
next
  case False
  define n where "n = \<lceil>1 / x\<rceil> - 1"
  from False assms have "1 < 1 / x" by simp
  then have npos: "0 < n" unfolding n_def by linarith
  from bitlen_bounds[OF npos] have "n < 2 ^ nat (bitlen n)" by simp
  then have "\<lceil>1 / x\<rceil> \<le> 2 ^ nat (bitlen n)" unfolding n_def by linarith
  then have "1 / x \<le> of_int (2 ^ nat (bitlen n))"
    by (simp only: ceiling_le_iff)
  then have "1 / x \<le> 2 ^ nat (bitlen n)" by simp
  then have "1 / 2 ^ nat (bitlen n) \<le> x"
    using assms by (simp add: field_simps)
  moreover have "(2::rat) powi (- bitlen n) = 1 / 2 ^ nat (bitlen n)"
    using bitlen_nonneg[of n] by (simp add: power_int_minus power_int_def field_simps)
  ultimately show ?thesis
    using False by (simp add: ilog2_def n_def)
qed

text \<open>The relative error of one rounding is at most \<open>2\<^sup>-\<^sup>5\<^sup>3\<close>.\<close>

lemma to_double_error: "\<bar>to_double x - x\<bar> \<le> \<bar>x\<bar> / 2 ^ 53"
proof (cases "x = 0")
  case True
  then show ?thesis by (simp add: to_double_def)
next
  case False
  define e where "e = ilog2 \<bar>x\<bar> - 52"
  define p where "p = (2::rat) powi e"
  have ppos: "0 < p" by (simp add: p_def)
  have td: "to_double x = of_int (round_half_even (x / p)) * p"
    using False by (simp add: to_double_def Let_def e_def p_def)
  have "to_double x - x = (of_int (round_half_even (x / p)) - x / p) * p"
    using ppos by (simp add: td field_simps)
  then have "\<bar>to_double x - x\<bar> = \<bar>of_int (round_half_even (x / p)) - x / p\<bar> * p"
    using ppos by (simp only: abs_mult abs_of_pos)
  also have "\<dots> \<le> (1 / 2) * p"
    using round_half_even_error[of "x / p"] ppos by (simp add: mult_right_mono)
  also have "p = 2 powi ilog2 \<bar>x\<bar> / 2 ^ 52"
    by (simp add: p_def e_def power_int_diff)
  also have "1 / 2 * ((2::rat) powi ilog2 \<bar>x\<bar> / 2 ^ 52) = 2 powi ilog2 \<bar>x\<bar> / 2 ^ 53"
    by simp
  also have "\<dots> \<le> \<bar>x\<bar> / 2 ^ 53"
    using ilog2_lower[of "\<bar>x\<bar>"] False by (simp add: divide_right_mono)
  finally show ?thesis by simp
qed

lemma ilog2_upper:
  assumes "0 < x" "x < 2 ^ k"
  shows "ilog2 x < int k"
proof (rule ccontr)
  assume "\<not> ilog2 x < int k"
  then have "int k \<le> ilog2 x" by simp
  then have "(2::rat) powi int k \<le> 2 powi ilog2 x"
    by (intro power_int_increasing) simp_all
  with ilog2_lower[OF assms(1)] have "(2::rat) ^ k \<le> x" by simp
  with assms(2) show False by simp
qed

text \<open>Integers below \<open>2\<^sup>5\<^sup>3\<close> are doubles: rounding leaves them alone.\<close>

lemma to_double_of_int:
  assumes "\<bar>n\<bar> < 2 ^ 53"
  shows "to_double (of_int n) = of_int n"
proof (cases "n = 0")
  case True
  then show ?thesis by (simp add: to_double_def)
next
  case False
  define x :: rat where "x = of_int n"
  have xne: "x \<noteq> 0" using False by (simp add: x_def)
  have "\<bar>x\<bar> < 2 ^ 53"
    using assms unfolding x_def by (metis of_int_abs of_int_less_iff of_int_numeral of_int_power)
  with xne have "ilog2 \<bar>x\<bar> < 53" using ilog2_upper[of "\<bar>x\<bar>" 53] by simp
  define k where "k = nat (52 - ilog2 \<bar>x\<bar>)"
  have e: "ilog2 \<bar>x\<bar> - 52 = - int k" using \<open>ilog2 \<bar>x\<bar> < 53\<close> by (simp add: k_def)
  have p: "(2::rat) powi (- int k) = 1 / 2 ^ k"
    by (simp add: power_int_minus field_simps)
  have "x / (1 / 2 ^ k) = of_int (n * 2 ^ k)" by (simp add: x_def)
  then have "round_half_even (x / (1 / 2 ^ k)) = n * 2 ^ k"
    by (simp only: round_half_even_of_int)
  then have "to_double x = of_int (n * 2 ^ k) * (1 / 2 ^ k)"
    using xne by (simp add: to_double_def Let_def e p)
  then show ?thesis by (simp add: x_def)
qed

section \<open>The per-pixel threshold\<close>

text \<open>
  Three roundings separate the computed threshold from the exact value of the formula:
  the quotient, the product and the difference.
\<close>

lemma threshold_close:
  assumes "1 \<le> s" "s \<le> (100::int)"
  shows "\<bar>to_double (50 - to_double (to_double ((of_int s - 1) / 99) * 45))
           - (50 - ((of_int s - 1) / 99) * 45)\<bar> \<le> 1 / 2 ^ 45"
proof -
  define eps :: rat where "eps = 1 / 2 ^ 53"
  define a :: rat where "a = (of_int s - 1) / 99"
  define q where "q = to_double a"
  define m where "m = to_double (q * 45)"
  define v where "v = to_double (50 - m)"
  have err: "\<bar>to_double x - x\<bar> \<le> \<bar>x\<bar> * eps" for x
    using to_double_error[of x] by (simp add: eps_def)
  have eps0: "0 \<le> eps" and eps1: "eps \<le> 1 / 1000" by (simp_all add: eps_def)
  have a0: "0 \<le> a" and a1: "a \<le> 1" using assms by (simp_all add: a_def)
  have "\<bar>a\<bar> * eps \<le> 1 * eps" using a0 a1 eps0 by (intro mult_right_mono) simp_all
  with err[of a] have qa: "\<bar>q - a\<bar> \<le> eps" by (simp add: q_def)
  then have q2: "\<bar>q * 45\<bar> \<le> 46" using a0 a1 eps1 by linarith
  then have "\<bar>q * 45\<bar> * eps \<le> 46 * eps" using eps0 by (intro mult_right_mono) simp_all
  with err[of "q * 45"] have mq: "\<bar>m - q * 45\<bar> \<le> 46 * eps" by (simp add: m_def)
  have ma: "\<bar>m - a * 45\<bar> \<le> 91 * eps" using mq qa by linarith
  then have "\<bar>50 - m\<bar> \<le> 51" using a0 a1 eps0 eps1 by linarith
  then have "\<bar>50 - m\<bar> * eps \<le> 51 * eps" using eps0 by (intro mult_right_mono) simp_all
  with err[of "50 - m"] have "\<bar>v - (50 - m)\<bar> \<le> 51 * eps" by (simp add: v_def)
  with ma have "\<bar>v - (50 - a * 45)\<bar> \<le> 142 * eps" by linarith
  also have "142 * eps \<le> 1 / 2 ^ 45" by (simp add: eps_def)
  finally show ?thesis by (simp add: v_def m_def q_def a_def)
qed

text \<open>
  C1 (as amended). For every integer sensitivity \<open>s\<close> in \<open>[1, 100]\<close> the threshold of a
  tick is the value of \<^verbatim>\<open>50 - ((s - 1) / 99) * 45\<close> in the hook's own (double) arithmetic,
  operation by operation in that order; it lies within \<open>2\<^sup>-\<^sup>4\<^sup>5\<close> of the exact value of the
  formula, and it is exactly 50 at \<open>s = 1\<close> and exactly 5 at \<open>s = 100\<close>.
\<close>

theorem pixelDiffThreshold_formula:
  assumes "1 \<le> s" "s \<le> (100::int)"
  shows "\<exists>v. pixelDiffThreshold (Num (of_int s)) = Num v
           \<and> v = to_double (50 - to_double (to_double ((of_int s - 1) / 99) * 45))
           \<and> \<bar>v - (50 - ((of_int s - 1) / 99) * 45)\<bar> \<le> 1 / 2 ^ 45
           \<and> (s = 1 \<longrightarrow> v = 50) \<and> (s = 100 \<longrightarrow> v = 5)"
proof -
  have "\<bar>s - 1\<bar> < 2 ^ 53" using assms by simp
  from to_double_of_int[OF this] have sub: "to_double (of_int s - 1) = of_int s - 1" by simp
  have e1: "to_double (50 - to_double (to_double 0 * 45)) = 50" by code_simp
  have e100: "to_double (50 - to_double (to_double (99 / 99) * 45)) = 5" by code_simp
  show ?thesis
    using threshold_close[OF assms] sub e1 e100 by (auto simp: pixelDiffThreshold_def)
qed

theorem pixelDiffThreshold_formula_witness:
  "(1::int) \<le> 100 \<and> (100::int) \<le> 100 \<and> pixelDiffThreshold (Num 100) = Num 5
     \<and> pixelDiffThreshold (Num 1) = Num 50"
  using pixelDiffThreshold_formula[of 100] pixelDiffThreshold_formula[of 1] by auto

text \<open>
  C1 as stated fails at the default sensitivity 50: the exact value of the formula is
  \<open>305 / 11\<close>, which no double equals; the hook computes the double
  \<open>3902266722579549 / 2\<^sup>4\<^sup>7\<close>.
\<close>

theorem pixelDiffThreshold_inexact_counterexample:
  "(1::int) \<le> 50 \<and> (50::int) \<le> 100
   \<and> pixelDiffThreshold (Num 50) = Num (3902266722579549 / 140737488355328)
   \<and> (50 - ((50 - 1) / 99) * 45 :: rat) = 305 / 11
   \<and> pixelDiffThreshold (Num 50) \<noteq> Num (50 - ((50 - 1) / 99) * 45)"
  by code_simp

section \<open>The sampling loop\<close>

lemma sample_step:
  fixes m i :: nat
  assumes "i < m"
  shows "(m - (i + 16) + 15) div 16 + 1 \<le> (m - i + 15) div 16"
proof (cases "i + 16 \<le> m")
  case True
  then have "m - i + 15 = (m - (i + 16) + 15) + 16" by simp
  then show ?thesis by (simp only: div_add_self2)
next
  case False
  then have "m - (i + 16) = 0" by simp
  moreover have "16 \<le> m - i + 15" using assms by simp
  then have "1 \<le> (m - i + 15) div 16" by (simp add: Suc_le_eq div_greater_zero_iff)
  ultimately show ?thesis by simp
qed

lemma sample_count: "(4 * n + 15) div 16 = (n + 3) div (4::nat)"
  by simp

lemma cover: "(n::nat) \<le> 4 * ((n + 3) div 4)"
  by (simp add: algebra_simps) 

lemma last_sample:
  fixes n j :: nat
  assumes "16 * j < n"
  shows "1 + ((n + 15) div 16 - Suc j) = (n + 15) div 16 - j"
proof -
  have "16 * Suc j \<le> n + 15" using assms by simp
  then have "Suc j \<le> (n + 15) div 16" by (simp add: less_eq_div_iff_mult_less_eq)
  then show ?thesis by simp
qed

lemma past_end:
  fixes n j :: nat
  assumes "\<not> 16 * j < n"
  shows "(n + 15) div 16 \<le> j"
proof -
  have "n + 15 < 16 * Suc j" using assms by simp
  then have "(n + 15) div 16 < Suc j" by (simp add: div_less_iff_less_mult)
  then show ?thesis by simp
qed

lemma to_double_nonneg_bounds:
  assumes "0 \<le> x"
  shows "0 \<le> to_double x" "to_double x \<le> 2 * x"
proof -
  have "\<bar>x\<bar> / 2 ^ 53 \<le> x" using assms by (simp add: field_simps)
  with to_double_error[of x] show "0 \<le> to_double x" "to_double x \<le> 2 * x"
    by linarith+
qed

lemma sample_changed_outside:
  "length lastData \<le> i \<Longrightarrow> \<not> sample_changed lastData currentData thr i"
  by (simp add: sample_changed_def avg_def tget_def)

lemma count_changed_outside:
  "length lastData \<le> i \<Longrightarrow> count_changed lastData currentData thr i n = n"
proof (induction lastData currentData thr i n rule: count_changed.induct)
  case (1 lastData currentData thr i n)
  then show ?case
    by (subst count_changed.simps) (simp add: sample_changed_outside resolution_def)
qed

lemma count_changed_le:
  "count_changed lastData currentData thr i n
     \<le> n + (min (length lastData) (length currentData) - i + 15) div 16"
proof (induction lastData currentData thr i n rule: count_changed.induct)
  case (1 lastData currentData thr i n)
  show ?case
  proof (cases "i < length currentData")
    case False
    then show ?thesis by (subst count_changed.simps) simp
  next
    case inside: True
    show ?thesis
    proof (cases "i < length lastData")
      case False
      then show ?thesis by (simp add: count_changed_outside)
    next
      case True
      let ?m = "min (length lastData) (length currentData)"
      let ?n' = "if sample_changed lastData currentData thr i then n + 1 else n"
      have "i < ?m" using True inside by simp
      then have step: "(?m - (i + 16) + 15) div 16 + 1 \<le> (?m - i + 15) div 16"
        by (rule sample_step)
      have "count_changed lastData currentData thr i n
              = count_changed lastData currentData thr (i + 16) ?n'"
        using inside by (subst count_changed.simps) (simp add: resolution_def)
      also have "\<dots> \<le> ?n' + (?m - (i + 16) + 15) div 16"
        using "1.IH"[OF inside] by (simp add: resolution_def)
      also have "\<dots> \<le> n + (?m - i + 15) div 16"
        using step by simp
      finally show ?thesis .
    qed
  qed
qed

lemma count_changed_all:
  assumes "\<forall>k. 16 * k < length currentData \<longrightarrow> sample_changed lastData currentData thr (16 * k)"
  shows "count_changed lastData currentData thr (16 * j) n
           = n + ((length currentData + 15) div 16 - j)"
  using assms
proof (induction lastData currentData thr "16 * j" n arbitrary: j rule: count_changed.induct)
  case (1 lastData currentData thr n)
  show ?case
  proof (cases "16 * j < length currentData")
    case False
    then have "(length currentData + 15) div 16 \<le> j" by (rule past_end)
    with False show ?thesis by (subst count_changed.simps) simp
  next
    case True
    have ch: "sample_changed lastData currentData thr (16 * j)" using "1.prems" True by blast
    have "16 * j + 4 * resolution = 16 * Suc j" by (simp add: resolution_def)
    then have "count_changed lastData currentData thr (16 * j) n
            = count_changed lastData currentData thr (16 * Suc j) (n + 1)"
      using True ch by (subst count_changed.simps) (simp only: if_True)
    also have "\<dots> = n + 1 + ((length currentData + 15) div 16 - Suc j)"
      using "1.hyps"[OF True, of "Suc j"] "1.prems" ch by (simp add: resolution_def)
    also have "\<dots> = n + ((length currentData + 15) div 16 - j)"
      using last_sample[OF True] by simp
    finally show ?thesis .
  qed
qed

lemma motionPixelThreshold_less:
  assumes "0 < w" "0 < h"
  shows "\<exists>t. motionPixelThreshold w h = Num t \<and> t < of_nat (w * h) / 4"
proof -
  define a :: rat where "a = to_double (of_nat w * of_nat h)"
  define b where "b = to_double (a / 4)"
  define c :: rat where "c = to_double (1 / 1000)"
  define t where "t = to_double (b * c)"
  have wh: "(0::rat) < of_nat w * of_nat h" using assms by simp
  have a: "0 \<le> a" "a \<le> 2 * (of_nat w * of_nat h)"
    unfolding a_def using to_double_nonneg_bounds[of "of_nat w * of_nat h"] wh by simp_all
  have b: "0 \<le> b" "b \<le> 2 * (a / 4)"
    unfolding b_def using to_double_nonneg_bounds[of "a / 4"] a by simp_all
  have c: "0 \<le> c" "c \<le> 2 / 1000"
    unfolding c_def using to_double_nonneg_bounds[of "1 / 1000"] by simp_all
  have bc: "0 \<le> b * c" using b c by simp
  have "b * c \<le> (of_nat w * of_nat h) * (2 / 1000)"
    using a b c by (intro mult_mono) simp_all
  moreover have "t \<le> 2 * (b * c)"
    unfolding t_def using to_double_nonneg_bounds[OF bc] by simp
  ultimately have "t < (of_nat w * of_nat h) / 4" using wh by simp
  moreover have "motionPixelThreshold w h = Num t"
    by (simp add: motionPixelThreshold_def totalPixelsChecked_def resolution_def
        t_def c_def b_def a_def)
  ultimately show ?thesis by simp
qed

lemma motion_present_full:
  assumes "0 < w" "0 < h"
  shows "motion_present ((w * h + 3) div 4) w h"
proof -
  from motionPixelThreshold_less[OF assms] obtain t where
    t: "motionPixelThreshold w h = Num t" "t < of_nat (w * h) / 4" by blast
  have "w * h \<le> 4 * ((w * h + 3) div 4)" by (rule cover)
  then have "(of_nat (w * h) :: rat) \<le> of_nat (4 * ((w * h + 3) div 4))"
    by (simp only: of_nat_le_iff)
  then have "(of_nat (w * h) :: rat) / 4 \<le> of_nat ((w * h + 3) div 4)" by simp
  with t show ?thesis by (simp add: motion_present_def)
qed

section \<open>Normal forms of the operations\<close>

lemmas host_defs = cancelAnimationFrame_def clearTimeout_def stopTracks_def Let_def

lemma cleanup_refs:
  "streamRef (cleanup s) = None" "stream (cleanup s) = None" "requestRef (cleanup s) = None"
  "lastImageDataRef (cleanup s) = None" "isDetectingMotionRef (cleanup s) = False"
  "videoRef (cleanup s) = None" "canvasRef (cleanup s) = None"
  by (simp_all add: cleanup_def host_defs split: option.splits)

lemma cleanup_kept:
  "callbacks (cleanup s) = callbacks s" "pendingGetUserMedia (cleanup s) = pendingGetUserMedia s"
  "pendingPlay (cleanup s) = pendingPlay s" "clock (cleanup s) = clock s"
  "sensitivityRef (cleanup s) = sensitivityRef s" "frameSeq (cleanup s) = frameSeq s"
  "timeoutSeq (cleanup s) = timeoutSeq s" "streamSeq (cleanup s) = streamSeq s"
  "videoSeq (cleanup s) = videoSeq s"
  by (simp_all add: cleanup_def host_defs split: option.splits)

lemma cleanup_host:
  "frameRequests (cleanup s) =
     (case requestRef s of Some h \<Rightarrow> removeAll h (frameRequests s) | None \<Rightarrow> frameRequests s)"
  "timeouts (cleanup s) =
     (case motionTimeoutRef s of
        Some t \<Rightarrow> if t \<noteq> 0 then filter (\<lambda>(i, due). i \<noteq> t) (timeouts s) else timeouts s
      | None \<Rightarrow> timeouts s)"
  "motionTimeoutRef (cleanup s) =
     (case motionTimeoutRef s of Some t \<Rightarrow> if t \<noteq> 0 then None else Some t | None \<Rightarrow> None)"
  "liveStreams (cleanup s) =
     (case streamRef s of Some ms \<Rightarrow> removeAll ms (liveStreams s) | None \<Rightarrow> liveStreams s)"
  "srcObject (cleanup s) =
     (case videoRef s of Some v \<Rightarrow> filter (\<lambda>(v', ms). v' \<noteq> v) (srcObject s) | None \<Rightarrow> srcObject s)"
  by (simp_all add: cleanup_def host_defs split: option.splits)

lemma cleanup_idem: "cleanup (cleanup s) = cleanup s"
  by (rule hook.equality) (simp_all add: cleanup_refs cleanup_kept cleanup_host split: option.splits)

lemma request_next_eq:
  "request_next s =
     s\<lparr>frameSeq := Suc (frameSeq s), frameRequests := frameRequests s @ [Suc (frameSeq s)],
       requestRef := Some (Suc (frameSeq s))\<rparr>"
  by (simp add: request_next_def requestAnimationFrame_def Let_def)

lemma motion_detected_eq:
  "motion_detected s =
     s\<lparr>isDetectingMotionRef := True,
       callbacks := (if isDetectingMotionRef s then callbacks s else callbacks s @ [OnMotionStart]),
       timeoutSeq := Suc (timeoutSeq s),
       timeouts := (case motionTimeoutRef s of
                      Some t \<Rightarrow> if t \<noteq> 0 then filter (\<lambda>(i, due). i \<noteq> t) (timeouts s)
                                else timeouts s
                    | None \<Rightarrow> timeouts s) @ [(Suc (timeoutSeq s), clock s + 1000)],
       motionTimeoutRef := Some (Suc (timeoutSeq s))\<rparr>"
  by (simp add: motion_detected_def setTimeout_def clearTimeout_def Let_def split: option.splits)

text \<open>The three shapes of a tick.\<close>

lemma detectMotionLoop_not_ready:
  "\<not> tick_ready video ctx s \<Longrightarrow> detectMotionLoop video ctx s = request_next s"
  by (auto simp: detectMotionLoop_def tick_ready_def Let_def)

lemma detectMotionLoop_first:
  "tick_ready video ctx s \<Longrightarrow> lastImageDataRef s = None \<Longrightarrow>
   detectMotionLoop video ctx s =
     request_next (s\<lparr>canvasRef := Some (videoWidth video, videoHeight video),
                     lastImageDataRef := Some (frame_of video)\<rparr>)"
  by (auto simp: detectMotionLoop_def tick_ready_def Let_def frame_of_def)

lemma detectMotionLoop_still:
  "tick_ready video ctx s \<Longrightarrow> lastImageDataRef s \<noteq> None \<Longrightarrow> \<not> motion_tick video s \<Longrightarrow>
   detectMotionLoop video ctx s =
     request_next (s\<lparr>canvasRef := Some (videoWidth video, videoHeight video),
                     lastImageDataRef := Some (frame_of video)\<rparr>)"
  by (auto simp: detectMotionLoop_def tick_ready_def Let_def frame_of_def motion_tick_def
      changedPixels_of_def)

lemma detectMotionLoop_motion:
  "tick_ready video ctx s \<Longrightarrow> motion_tick video s \<Longrightarrow>
   detectMotionLoop video ctx s =
     request_next (motion_detected (s\<lparr>canvasRef := Some (videoWidth video, videoHeight video),
                     lastImageDataRef := Some (frame_of video)\<rparr>))"
  by (auto simp: detectMotionLoop_def tick_ready_def Let_def frame_of_def motion_tick_def
      changedPixels_of_def split: option.splits)

lemma detectMotionLoop_cases:
  obtains
    (idle) "detectMotionLoop video ctx s = request_next s"
  | (stored) "tick_ready video ctx s" "\<not> motion_tick video s"
      "detectMotionLoop video ctx s =
         request_next (s\<lparr>canvasRef := Some (videoWidth video, videoHeight video),
                         lastImageDataRef := Some (frame_of video)\<rparr>)"
  | (motion) "tick_ready video ctx s" "motion_tick video s"
      "detectMotionLoop video ctx s =
         request_next (motion_detected (s\<lparr>canvasRef := Some (videoWidth video, videoHeight video),
                         lastImageDataRef := Some (frame_of video)\<rparr>))"
proof (cases "tick_ready video ctx s")
  case False
  then show ?thesis using idle detectMotionLoop_not_ready by blast
next
  case ready: True
  show ?thesis
  proof (cases "motion_tick video s")
    case True
    then show ?thesis using motion ready detectMotionLoop_motion by blast
  next
    case False
    show ?thesis
    proof (cases "lastImageDataRef s")
      case None
      then show ?thesis using stored ready False detectMotionLoop_first by blast
    next
      case (Some a)
      then show ?thesis using stored ready False detectMotionLoop_still by simp
    qed
  qed
qed


lemma setup_catch_eq:
  "setup_catch err s =
     s\<lparr>callbacks := callbacks s @
        (case err of
           DOMException name message \<Rightarrow> if name = ''AbortError'' then [] else [OnError message]
         | Error name message \<Rightarrow> [OnError message]
         | Thrown \<Rightarrow> [OnError ''An unknown error occurred while accessing the camera.''])\<rparr>"
  by (simp add: setup_catch_def onError_def split: js_exception.splits)

lemma setup_granted_eq:
  "setup_granted s =
     s\<lparr>streamSeq := Suc (streamSeq s), liveStreams := liveStreams s @ [Suc (streamSeq s)],
       stream := Some (Suc (streamSeq s)), streamRef := Some (Suc (streamSeq s)),
       videoSeq := Suc (videoSeq s),
       srcObject := (Suc (videoSeq s), Suc (streamSeq s)) # srcObject s,
       videoRef := Some (Suc (videoSeq s)), canvasRef := Some (300, 150),
       pendingPlay := pendingPlay s @ [Suc (videoSeq s)]\<rparr>"
  by (simp add: setup_granted_def Let_def)

lemmas step_eqs = request_next_eq setup_catch_eq setup_granted_eq setup_playing_def
  motion_timeout_def

section \<open>Timers\<close>

lemma timer_inv_cleared:
  assumes "timer_inv s"
  shows "(case motionTimeoutRef s of
            Some t \<Rightarrow> if t \<noteq> 0 then filter (\<lambda>(i, due). i \<noteq> t) (timeouts s) else timeouts s
          | None \<Rightarrow> timeouts s) = []"
proof (cases "motionTimeoutRef s")
  case None
  with assms show ?thesis by (cases "timeouts s") (auto simp: timer_inv_def)
next
  case (Some t)
  with assms show ?thesis by (auto simp: timer_inv_def filter_empty_conv)
qed

lemma timeouts_cleanup: "timer_inv s \<Longrightarrow> timeouts (cleanup s) = []"
  by (simp add: cleanup_host timer_inv_cleared)

lemma timeouts_motion_detected:
  "timer_inv s \<Longrightarrow> timeouts (motion_detected s) = [(Suc (timeoutSeq s), clock s + 1000)]"
  by (simp add: motion_detected_eq timer_inv_cleared)

lemma motionTimeoutRef_cleanup: "timer_inv s \<Longrightarrow> motionTimeoutRef (cleanup s) = None"
  by (auto simp: timer_inv_def cleanup_host split: option.splits)

lemma timer_inv_cleanup: "timer_inv s \<Longrightarrow> timer_inv (cleanup s)"
  using timeouts_cleanup[of s] motionTimeoutRef_cleanup[of s] by (simp add: timer_inv_def)

lemma timer_inv_motion_detected: "timer_inv s \<Longrightarrow> timer_inv (motion_detected s)"
  using timeouts_motion_detected[of s] by (simp add: timer_inv_def motion_detected_eq)

lemma timer_inv_request_next [simp]: "timer_inv (request_next s) = timer_inv s"
  by (simp add: timer_inv_def request_next_eq)

lemma timer_inv_detectMotionLoop:
  assumes "timer_inv s"
  shows "timer_inv (detectMotionLoop video ctx s)"
proof (cases video ctx s rule: detectMotionLoop_cases)
  case idle
  with assms show ?thesis by simp
next
  case stored
  with assms show ?thesis by (simp add: timer_inv_def request_next_eq)
next
  case motion
  have "timer_inv (s\<lparr>canvasRef := Some (videoWidth video, videoHeight video),
                     lastImageDataRef := Some (frame_of video)\<rparr>)"
    using assms by (simp add: timer_inv_def)
  then show ?thesis using motion(3) by (simp add: timer_inv_motion_detected)
qed

lemma timer_inv_setup_catch [simp]: "timer_inv (setup_catch err s) = timer_inv s"
  by (simp add: timer_inv_def setup_catch_eq)

lemma timer_inv_filter:
  "timer_inv s \<Longrightarrow> timer_inv (s\<lparr>timeouts := filter P (timeouts s)\<rparr>)"
  by (auto simp: timer_inv_def)

lemma timer_inv_step:
  assumes "timer_inv s" "step e s = Some s'"
  shows "timer_inv s'"
proof (cases e)
  case Setup
  with assms timer_inv_cleanup[of s] show ?thesis
    by (auto simp: setup_call_def Let_def timer_inv_def)
next
  case Cleanup
  with assms show ?thesis by (auto simp: timer_inv_cleanup)
next
  case (AnimationFrame h video ctx)
  have "timer_inv (s\<lparr>frameRequests := removeAll h (frameRequests s)\<rparr>)"
    using assms(1) by (simp add: timer_inv_def)
  from timer_inv_detectMotionLoop[OF this] AnimationFrame assms(2) show ?thesis
    by (auto split: if_splits)
next
  case (TimeoutFired h)
  with assms show ?thesis
    by (auto simp: motion_timeout_def timer_inv_def split: option.splits if_splits)
qed (use assms in \<open>auto simp: timer_inv_def step_eqs split: if_splits\<close>)


lemma timeouts_cleanup_subset: "set (timeouts (cleanup s)) \<subseteq> set (timeouts s)"
  by (auto simp: cleanup_host split: option.splits if_splits)

lemma timeouts_motion_detected_subset:
  "set (timeouts (motion_detected s)) \<subseteq> insert (Suc (timeoutSeq s), clock s + 1000) (set (timeouts s))"
  by (auto simp: motion_detected_eq split: option.splits if_splits)

lemma due_after_detectMotionLoop:
  assumes "due_after t0 s"
  shows "due_after t0 (detectMotionLoop video ctx s)"
proof (cases video ctx s rule: detectMotionLoop_cases)
  case idle
  with assms show ?thesis by (simp add: due_after_def request_next_eq)
next
  case stored
  with assms show ?thesis by (simp add: due_after_def request_next_eq)
next
  case motion
  define s1 where "s1 = s\<lparr>canvasRef := Some (videoWidth video, videoHeight video),
                     lastImageDataRef := Some (frame_of video)\<rparr>"
  have "due_after t0 s1" using assms by (simp add: due_after_def s1_def)
  with timeouts_motion_detected_subset[of s1] have "due_after t0 (motion_detected s1)"
    by (fastforce simp: due_after_def motion_detected_eq)
  then show ?thesis using motion(3) by (simp add: due_after_def request_next_eq s1_def)
qed

lemma due_after_step:
  assumes "due_after t0 s" "step e s = Some s'"
  shows "due_after t0 s'"
proof (cases e)
  case Setup
  with assms timeouts_cleanup_subset[of s] show ?thesis
    by (fastforce simp: setup_call_def Let_def due_after_def cleanup_kept)
next
  case Cleanup
  with assms timeouts_cleanup_subset[of s] show ?thesis
    by (fastforce simp: due_after_def cleanup_kept)
next
  case (AnimationFrame h video ctx)
  have "due_after t0 (s\<lparr>frameRequests := removeAll h (frameRequests s)\<rparr>)"
    using assms(1) by (simp add: due_after_def)
  from due_after_detectMotionLoop[OF this] AnimationFrame assms(2) show ?thesis
    by (auto split: if_splits)
next
  case (TimeoutFired h)
  with assms show ?thesis
    by (auto simp: motion_timeout_def due_after_def split: option.splits if_splits)
qed (use assms in \<open>auto simp: due_after_def step_eqs split: if_splits\<close>)

lemma due_after_run: "due_after t0 s \<Longrightarrow> run es s = Some s' \<Longrightarrow> due_after t0 s'"
proof (induction es arbitrary: s)
  case Nil
  then show ?case by simp
next
  case (Cons e es)
  then show ?case by (auto split: option.splits dest: due_after_step)
qed

lemma timer_inv_run: "timer_inv s \<Longrightarrow> run es s = Some s' \<Longrightarrow> timer_inv s'"
proof (induction es arbitrary: s)
  case Nil
  then show ?case by simp
next
  case (Cons e es)
  then show ?case by (auto split: option.splits dest: timer_inv_step)
qed

text \<open>Every state the mounted hook can reach satisfies \<open>timer_inv\<close>.\<close>

lemma timer_inv_reachable: "run es (mount x) = Some s \<Longrightarrow> timer_inv s"
  by (rule timer_inv_run[of "mount x"]) (simp_all add: timer_inv_def mount_def)

text \<open>Only a timeout, \<^verbatim>\<open>cleanup\<close> or \<^verbatim>\<open>setup\<close> leaves the active state.\<close>

lemma isDetecting_detectMotionLoop:
  "isDetectingMotionRef s \<Longrightarrow> isDetectingMotionRef (detectMotionLoop video ctx s)"
  by (cases video ctx s rule: detectMotionLoop_cases)
     (simp_all add: request_next_eq motion_detected_eq)

lemma leaves_active:
  assumes "step e s = Some s'" "isDetectingMotionRef s" "\<not> isDetectingMotionRef s'"
    "e \<noteq> Setup" "e \<noteq> Cleanup"
  shows "\<exists>h due. e = TimeoutFired h \<and> (h, due) \<in> set (timeouts s) \<and> due \<le> clock s
           \<and> callbacks s' = callbacks s @ [OnMotionEnd]"
proof (cases e)
  case (AnimationFrame h video ctx)
  with assms isDetecting_detectMotionLoop[of "s\<lparr>frameRequests := removeAll h (frameRequests s)\<rparr>" video ctx]
  show ?thesis by (auto split: if_splits)
next
  case (TimeoutFired h)
  with assms show ?thesis
    by (auto simp: motion_timeout_def split: option.splits if_splits dest: map_of_SomeD)
qed (use assms in \<open>auto simp: step_eqs split: if_splits\<close>)

section \<open>A single session\<close>

lemma single_session_cong:
  assumes "motionTimeoutRef s' = motionTimeoutRef s" "timeouts s' = timeouts s"
    "frameRequests s' = frameRequests s" "requestRef s' = requestRef s"
    "liveStreams s' = liveStreams s" "streamRef s' = streamRef s" "streamSeq s' = streamSeq s"
    "srcObject s' = srcObject s" "videoRef s' = videoRef s" "pendingPlay s' = pendingPlay s"
    "pendingGetUserMedia s' = pendingGetUserMedia s"
  shows "single_session s' = single_session s"
  by (simp add: single_session_def timer_inv_def has_source_def assms)

lemma single_session_off:
  assumes "timer_inv s" "frameRequests s = []" "liveStreams s = []" "srcObject s = []"
    "timeouts s = []" "streamRef s = None" "pendingGetUserMedia s \<le> 1"
  shows "single_session s"
  using assms by (simp add: single_session_def has_source_def)

lemma cleanup_clears:
  assumes "single_session s"
  shows "frameRequests (cleanup s) = []" "timeouts (cleanup s) = []"
    "liveStreams (cleanup s) = []" "srcObject (cleanup s) = []"
proof -
  from assms have t: "timer_inv s" by (simp add: single_session_def)
  then show "timeouts (cleanup s) = []" by (rule timeouts_cleanup)
  from assms have "frameRequests s = [] \<or> map Some (frameRequests s) = [requestRef s]"
    by (simp add: single_session_def)
  then show "frameRequests (cleanup s) = []"
    by (auto simp: cleanup_host split: option.splits)
  from assms have "liveStreams s = [] \<or> map Some (liveStreams s) = [streamRef s]"
    by (simp add: single_session_def)
  then show "liveStreams (cleanup s) = []"
    by (auto simp: cleanup_host split: option.splits)
  from assms have src: "\<forall>(v, ms) \<in> set (srcObject s). videoRef s = Some v"
    by (simp add: single_session_def)
  show "srcObject (cleanup s) = []"
  proof (cases "videoRef s")
    case None
    with src show ?thesis by (cases "srcObject s") (auto simp: cleanup_host)
  next
    case (Some v)
    with src show ?thesis by (auto simp: cleanup_host filter_empty_conv)
  qed
qed

lemma quiet_cleanup:
  "single_session s \<Longrightarrow> pendingGetUserMedia s = 0 \<Longrightarrow> quiet (cleanup s)"
  by (simp add: quiet_def cleanup_clears cleanup_kept)

lemma single_session_cleanup:
  assumes "single_session s"
  shows "single_session (cleanup s)"
proof (rule single_session_off)
  from assms have t: "timer_inv s" and p: "pendingGetUserMedia s \<le> 1"
    by (simp_all add: single_session_def)
  from t show "timer_inv (cleanup s)" by (rule timer_inv_cleanup)
  from p show "pendingGetUserMedia (cleanup s) \<le> 1" by (simp add: cleanup_kept)
qed (simp_all add: cleanup_clears[OF assms] cleanup_refs)

lemma single_session_setup_call:
  assumes "single_session s" "pendingGetUserMedia s = 0"
  shows "single_session (setup_call s)"
proof (rule single_session_off)
  from assms have t: "timer_inv s" by (simp add: single_session_def)
  from timer_inv_cleanup[OF t] show "timer_inv (setup_call s)"
    by (simp add: setup_call_def Let_def timer_inv_def)
qed (simp_all add: setup_call_def Let_def cleanup_clears[OF assms(1)] cleanup_refs cleanup_kept
       assms(2))

lemma has_source_current:
  "single_session s \<Longrightarrow> has_source s v \<Longrightarrow> videoRef s = Some v"
  by (auto simp: single_session_def has_source_def dest: map_of_SomeD)

text \<open>A session with its loop running: one frame request, one live stream, nothing else under way.\<close>

lemma single_session_running:
  assumes "timer_inv s" "map Some (frameRequests s) = [requestRef s]"
    "map Some (liveStreams s) = [streamRef s]" "\<forall>ms \<in> set (liveStreams s). ms \<le> streamSeq s"
    "\<forall>(v, ms) \<in> set (srcObject s). videoRef s = Some v"
    "\<forall>v \<in> set (pendingPlay s). \<not> has_source s v" "pendingGetUserMedia s = 0"
  shows "single_session s"
  using assms by (auto simp: single_session_def)

lemma single_session_tick:
  assumes "single_session s" "h \<in> set (frameRequests s)"
  shows "single_session (detectMotionLoop video ctx (s\<lparr>frameRequests := removeAll h (frameRequests s)\<rparr>))"
proof -
  define s0 where "s0 = s\<lparr>frameRequests := removeAll h (frameRequests s)\<rparr>"
  from assms have "frameRequests s = [] \<or> map Some (frameRequests s) = [requestRef s]"
    by (simp add: single_session_def)
  with assms(2) have fr: "frameRequests s = [h]" "requestRef s = Some h" by auto
  from assms(1) fr have live: "liveStreams s \<noteq> []" by (simp add: single_session_def)
  from assms(1) have "liveStreams s = [] \<or> map Some (liveStreams s) = [streamRef s]"
    by (simp add: single_session_def)
  with live have live1: "map Some (liveStreams s) = [streamRef s]" by simp
  from assms(1) fr have nosrc: "\<forall>v \<in> set (pendingPlay s). \<not> has_source s v"
    by (simp add: single_session_def)
  from assms(1) fr have p0: "pendingGetUserMedia s = 0"
    by (cases "pendingGetUserMedia s = 1") (simp_all add: single_session_def)
  from assms(1) have t: "timer_inv s" and seq: "\<forall>ms \<in> set (liveStreams s). ms \<le> streamSeq s"
    and src: "\<forall>(v, ms) \<in> set (srcObject s). videoRef s = Some v"
    by (simp_all add: single_session_def)
  have run1: "single_session (request_next x)"
    if "timer_inv x" "frameRequests x = []" "liveStreams x = liveStreams s"
      "streamRef x = streamRef s" "streamSeq x = streamSeq s" "srcObject x = srcObject s"
      "videoRef x = videoRef s" "pendingPlay x = pendingPlay s" "pendingGetUserMedia x = 0" for x
  proof (rule single_session_running)
    show "timer_inv (request_next x)" using that(1) by simp
  qed (use that live1 seq src nosrc in \<open>simp_all add: request_next_eq has_source_def\<close>)
  have "single_session (detectMotionLoop video ctx s0)"
  proof (cases video ctx s0 rule: detectMotionLoop_cases)
    case idle
    have "single_session (request_next s0)"
      by (rule run1) (use t fr p0 in \<open>simp_all add: s0_def timer_inv_def\<close>)
    with idle show ?thesis by simp
  next
    case stored
    have "single_session (request_next (s0\<lparr>canvasRef := Some (videoWidth video, videoHeight video),
                     lastImageDataRef := Some (frame_of video)\<rparr>))"
      by (rule run1) (use t fr p0 in \<open>simp_all add: s0_def timer_inv_def\<close>)
    with stored show ?thesis by simp
  next
    case motion
    define s1 where "s1 = s0\<lparr>canvasRef := Some (videoWidth video, videoHeight video),
                     lastImageDataRef := Some (frame_of video)\<rparr>"
    have t1: "timer_inv s1" using t by (simp add: s1_def s0_def timer_inv_def)
    have "single_session (request_next (motion_detected s1))"
    proof (rule run1)
      show "timer_inv (motion_detected s1)" using t1 by (rule timer_inv_motion_detected)
    qed (use fr p0 in \<open>simp_all add: motion_detected_eq s1_def s0_def\<close>)
    with motion(3) show ?thesis by (simp add: s1_def)
  qed
  then show ?thesis by (simp add: s0_def)
qed

lemma single_session_granted:
  assumes "single_session s" "pendingGetUserMedia s \<noteq> 0"
  shows "single_session (setup_granted (s\<lparr>pendingGetUserMedia := pendingGetUserMedia s - 1\<rparr>))"
proof -
  from assms have p1: "pendingGetUserMedia s = 1" by (simp add: single_session_def)
  with assms(1) have off: "frameRequests s = []" "timeouts s = []" "liveStreams s = []"
    "srcObject s = []" "streamRef s = None" and t: "timer_inv s"
    by (simp_all add: single_session_def)
  show ?thesis
    unfolding single_session_def
    using off t p1 by (simp add: setup_granted_eq timer_inv_def has_source_def)
qed

lemma single_session_step:
  assumes "single_session s" "step e s = Some s'" "e = Setup \<longrightarrow> pendingGetUserMedia s = 0"
  shows "single_session s'"
proof (cases e)
  case Setup
  with assms show ?thesis by (auto simp: single_session_setup_call)
next
  case Cleanup
  with assms show ?thesis by (auto simp: single_session_cleanup)
next
  case GetUserMediaResolved
  with assms single_session_granted[of s] show ?thesis by (auto split: if_splits)
next
  case (GetUserMediaRejected err)
  with assms(2) have p: "pendingGetUserMedia s \<noteq> 0"
    and s': "s' = setup_catch err (s\<lparr>pendingGetUserMedia := pendingGetUserMedia s - 1\<rparr>)"
    by (auto split: if_splits)
  from assms(1) p have p1: "pendingGetUserMedia s = 1" by (simp add: single_session_def)
  with assms(1) have off: "frameRequests s = []" "timeouts s = []" "liveStreams s = []"
    "srcObject s = []" "streamRef s = None" and t: "timer_inv s"
    by (simp_all add: single_session_def)
  show ?thesis
    by (rule single_session_off) (use off t p1 in \<open>simp_all add: s' setup_catch_eq timer_inv_def\<close>)
next
  case (PlayResolved v)
  with assms(2) have v: "v \<in> set (pendingPlay s)" "has_source s v"
    and s': "s' = request_next (s\<lparr>pendingPlay := removeAll v (pendingPlay s)\<rparr>)"
    by (auto simp: setup_playing_def split: if_splits)
  from assms(1) v have fr: "frameRequests s = []" by (auto simp: single_session_def)
  from assms(1) v have p0: "pendingGetUserMedia s = 0"
    by (cases "pendingGetUserMedia s = 1") (auto simp: single_session_def has_source_def)
  from assms(1) v(2) have "liveStreams s \<noteq> []"
    by (auto simp: single_session_def has_source_def)
  moreover from assms(1) have "liveStreams s = [] \<or> map Some (liveStreams s) = [streamRef s]"
    by (simp add: single_session_def)
  ultimately have live1: "map Some (liveStreams s) = [streamRef s]" by simp
  from assms(1) have t: "timer_inv s" and seq: "\<forall>ms \<in> set (liveStreams s). ms \<le> streamSeq s"
    and src: "\<forall>(v, ms) \<in> set (srcObject s). videoRef s = Some v"
    by (simp_all add: single_session_def)
  have none: "\<not> has_source s w" if "w \<in> set (removeAll v (pendingPlay s))" for w
    using has_source_current[OF assms(1), of w] has_source_current[OF assms(1) v(2)] that
    by auto
  show ?thesis
  proof (rule single_session_running)
    show "timer_inv s'" using t by (simp add: s' timer_inv_def request_next_eq)
    show "\<forall>w \<in> set (pendingPlay s'). \<not> has_source s' w"
      using none by (simp add: s' request_next_eq has_source_def)
  qed (use fr p0 live1 seq src in \<open>simp_all add: s' request_next_eq\<close>)
next
  case (PlayRejected v err)
  with assms(2) have s': "s' = setup_catch err (s\<lparr>pendingPlay := removeAll v (pendingPlay s)\<rparr>)"
    by (auto split: if_splits)
  from assms(1) show ?thesis
    unfolding s' single_session_def
    by (simp add: setup_catch_eq timer_inv_def has_source_def) blast
next
  case (AnimationFrame h video ctx)
  with assms single_session_tick[of s h video ctx] show ?thesis by (auto split: if_splits)
next
  case (TimeoutFired h)
  with assms(2) have s': "s' = motion_timeout (s\<lparr>timeouts := filter (\<lambda>(i, due). i \<noteq> h) (timeouts s)\<rparr>)"
    by (auto split: if_splits option.splits)
  from assms(1) have t: "timer_inv s" by (simp add: single_session_def)
  have "timer_inv (s\<lparr>timeouts := filter (\<lambda>(i, due). i \<noteq> h) (timeouts s)\<rparr>)"
    using t by (rule timer_inv_filter)
  then have "timer_inv s'" by (simp add: s' motion_timeout_def timer_inv_def)
  with assms(1) show ?thesis
    unfolding s' single_session_def
    by (simp add: motion_timeout_def has_source_def)
next
  case (TimePasses d)
  with assms(2) have "s' = s\<lparr>clock := clock s + d\<rparr>" by simp
  then have "single_session s' = single_session s" by (intro single_session_cong) simp_all
  with assms(1) show ?thesis by simp
next
  case (SensitivityChanged x)
  with assms(2) have "s' = s\<lparr>sensitivityRef := x\<rparr>" by simp
  then have "single_session s' = single_session s" by (intro single_session_cong) simp_all
  with assms(1) show ?thesis by simp
qed

section \<open>Runs\<close>

lemma detectMotionLoop_kept:
  "liveStreams (detectMotionLoop video ctx s) = liveStreams s"
  "streamSeq (detectMotionLoop video ctx s) = streamSeq s"
  "streamRef (detectMotionLoop video ctx s) = streamRef s"
  "stream (detectMotionLoop video ctx s) = stream s"
  "srcObject (detectMotionLoop video ctx s) = srcObject s"
  "videoRef (detectMotionLoop video ctx s) = videoRef s"
  "pendingPlay (detectMotionLoop video ctx s) = pendingPlay s"
  "pendingGetUserMedia (detectMotionLoop video ctx s) = pendingGetUserMedia s"
  "clock (detectMotionLoop video ctx s) = clock s"
  "sensitivityRef (detectMotionLoop video ctx s) = sensitivityRef s"
  "frameRequests (detectMotionLoop video ctx s) = frameRequests s @ [Suc (frameSeq s)]"
  "requestRef (detectMotionLoop video ctx s) = Some (Suc (frameSeq s))"
  by (cases video ctx s rule: detectMotionLoop_cases;
      simp add: request_next_eq motion_detected_eq)+

lemma is_abort_silent: "is_abort err \<Longrightarrow> setup_catch err s = s"
  by (auto simp: is_abort_def setup_catch_def split: js_exception.splits)

text \<open>Once the hook is off, only a new call of \<^verbatim>\<open>setup\<close> can make anything happen.\<close>

lemma quiet_step:
  assumes "quiet s" "step e s = Some s'" "e \<noteq> Setup"
  shows "quiet s' \<and> callbacks s' = callbacks s"
proof (cases e)
  case Setup
  with assms show ?thesis by simp
next
  case Cleanup
  with assms show ?thesis by (auto simp: quiet_def cleanup_host cleanup_kept split: option.splits)
next
  case GetUserMediaResolved
  with assms show ?thesis by (simp add: quiet_def)
next
  case (GetUserMediaRejected err)
  with assms show ?thesis by (simp add: quiet_def)
next
  case (PlayResolved v)
  with assms show ?thesis by (simp add: quiet_def has_source_def)
next
  case (PlayRejected v err)
  with assms have "is_abort err" and "s' = setup_catch err (s\<lparr>pendingPlay := removeAll v (pendingPlay s)\<rparr>)"
    by (auto simp: quiet_def has_source_def split: if_splits)
  with assms(1) show ?thesis by (simp add: is_abort_silent quiet_def)
next
  case (AnimationFrame h video ctx)
  with assms show ?thesis by (simp add: quiet_def)
next
  case (TimeoutFired h)
  with assms show ?thesis by (simp add: quiet_def)
next
  case (TimePasses d)
  with assms show ?thesis by (auto simp: quiet_def)
next
  case (SensitivityChanged x)
  with assms show ?thesis by (auto simp: quiet_def)
qed

lemma quiet_run:
  "quiet s \<Longrightarrow> Setup \<notin> set es \<Longrightarrow> run es s = Some s' \<Longrightarrow> quiet s' \<and> callbacks s' = callbacks s"
proof (induction es arbitrary: s)
  case Nil
  then show ?case by simp
next
  case (Cons e es)
  from Cons.prems obtain s1 where s1: "step e s = Some s1" "run es s1 = Some s'"
    by (auto split: option.splits)
  from quiet_step[OF Cons.prems(1) s1(1)] Cons.prems(2)
  have "quiet s1" "callbacks s1 = callbacks s" by auto
  with Cons.IH[of s1] Cons.prems(2) s1(2) show ?case by simp
qed

lemma single_session_run:
  "single_session s \<Longrightarrow> Setup \<notin> set es \<Longrightarrow> run es s = Some s' \<Longrightarrow> single_session s'"
proof (induction es arbitrary: s)
  case Nil
  then show ?case by simp
next
  case (Cons e es)
  from Cons.prems obtain s1 where s1: "step e s = Some s1" "run es s1 = Some s'"
    by (auto split: option.splits)
  from Cons.prems(2) have "e \<noteq> Setup" by auto
  with single_session_step[OF Cons.prems(1) s1(1)] have "single_session s1" by simp
  with Cons.IH[of s1] Cons.prems(2) s1(2) show ?case by simp
qed

text \<open>Streams are named in sequence: whatever is live later than handle \<open>n\<close> is newer.\<close>

lemma newer_step:
  assumes "n \<le> streamSeq s" "\<forall>ms \<in> set (liveStreams s). n < ms" "step e s = Some s'"
  shows "n \<le> streamSeq s' \<and> (\<forall>ms \<in> set (liveStreams s'). n < ms)"
proof (cases e)
  case Setup
  with assms show ?thesis
    by (auto simp: setup_call_def Let_def cleanup_kept cleanup_host split: option.splits)
next
  case Cleanup
  with assms show ?thesis by (auto simp: cleanup_kept cleanup_host split: option.splits)
next
  case (AnimationFrame h video ctx)
  with assms show ?thesis by (auto simp: detectMotionLoop_kept split: if_splits)
next
  case (TimeoutFired h)
  with assms show ?thesis by (auto simp: motion_timeout_def split: if_splits option.splits)
qed (use assms in \<open>auto simp: step_eqs split: if_splits\<close>)

lemma newer_run:
  "n \<le> streamSeq s \<Longrightarrow> \<forall>ms \<in> set (liveStreams s). n < ms \<Longrightarrow> run es s = Some s' \<Longrightarrow>
   n \<le> streamSeq s' \<and> (\<forall>ms \<in> set (liveStreams s'). n < ms)"
proof (induction es arbitrary: s)
  case Nil
  then show ?case by simp
next
  case (Cons e es)
  from Cons.prems obtain s1 where s1: "step e s = Some s1" "run es s1 = Some s'"
    by (auto split: option.splits)
  from newer_step[OF Cons.prems(1,2) s1(1)] Cons.IH[of s1] s1(2) show ?case by simp
qed

section \<open>The sample states are reachable\<close>

lemma started_reachable:
  "run [Setup, GetUserMediaResolved, PlayResolved 1] (mount (Num 50)) = Some started"
  by code_simp

lemma seen_reachable:
  "step (AnimationFrame 1 dark True) started = Some (seen dark)"
  by code_simp

lemma watching_reachable:
  "step (AnimationFrame 2 bright True) (seen dark) = Some watching"
  by code_simp

lemma seen_wide_reachable:
  "run [Setup, GetUserMediaResolved, PlayResolved 1, AnimationFrame 1 (uniform 4 2 0) True]
     (mount (Num 50)) = Some (seen (uniform 4 2 0))"
  by code_simp

lemma acquiring_reachable: "run [Setup] (mount (Num 50)) = Some acquiring"
  by code_simp

lemma interrupted_reachable:
  "run [Setup, GetUserMediaResolved, Cleanup] (mount (Num 50)) = Some interrupted"
  by code_simp

lemma single_session_watching: "single_session watching"
  by (simp add: single_session_def timer_inv_def watching_def has_source_def)

lemma enabled_changed_eq:
  "enabled_changed False s = cleanup s" "enabled_changed True s = setup_call s"
  by (simp_all add: enabled_changed_def useEffect_enabled_def setup_call_def cleanup_idem Let_def)

section \<open>The motion state machine\<close>

text \<open>
  C2. While the motion state is active, a tick classified "motion present" invokes no
  callback, leaves the state active, and replaces whatever silence timeout was pending by a
  fresh one due 1000 ms later. From then on, as long as the hook is not torn down
  (\<^verbatim>\<open>cleanup\<close>, also as the first step of \<^verbatim>\<open>setup\<close>), the only event that takes the
  state from active to idle is the firing of a silence timeout; it happens no earlier than
  1000 ms after that tick (hence after the latest such tick), and it invokes the motion-end
  callback exactly once.
\<close>

theorem active_motion_tick:
  assumes "timer_inv s" "isDetectingMotionRef s" "tick_ready video ctx s" "motion_tick video s"
  shows "callbacks (detectMotionLoop video ctx s) = callbacks s
       \<and> isDetectingMotionRef (detectMotionLoop video ctx s)
       \<and> motionTimeoutRef (detectMotionLoop video ctx s) = Some (Suc (timeoutSeq s))
       \<and> timeouts (detectMotionLoop video ctx s) = [(Suc (timeoutSeq s), clock s + 1000)]
       \<and> (\<forall>es s2 e s3.
            run es (detectMotionLoop video ctx s) = Some s2 \<and> step e s2 = Some s3 \<and>
            isDetectingMotionRef s2 \<and> \<not> isDetectingMotionRef s3 \<and> e \<noteq> Setup \<and> e \<noteq> Cleanup
            \<longrightarrow> (\<exists>h. e = TimeoutFired h) \<and> clock s + 1000 \<le> clock s2
                \<and> callbacks s3 = callbacks s2 @ [OnMotionEnd])"
proof -
  define s0 where "s0 = s\<lparr>canvasRef := Some (videoWidth video, videoHeight video),
                     lastImageDataRef := Some (frame_of video)\<rparr>"
  define s1 where "s1 = detectMotionLoop video ctx s"
  have eq: "s1 = request_next (motion_detected s0)"
    unfolding s1_def s0_def using assms(3,4) by (rule detectMotionLoop_motion)
  have inv0: "timer_inv s0" using assms(1) by (simp add: timer_inv_def s0_def)
  have act0: "isDetectingMotionRef s0" using assms(2) by (simp add: s0_def)
  have t1: "timeouts s1 = [(Suc (timeoutSeq s), clock s + 1000)]"
    using timeouts_motion_detected[OF inv0] by (simp add: eq request_next_eq s0_def)
  have a: "callbacks s1 = callbacks s" "isDetectingMotionRef s1"
    "motionTimeoutRef s1 = Some (Suc (timeoutSeq s))"
    using act0 by (simp_all add: eq request_next_eq motion_detected_eq s0_def)
  have "clock s1 = clock s"
    by (simp add: eq request_next_eq motion_detected_eq s0_def)
  with t1 have due: "due_after (clock s) s1" by (simp add: due_after_def)
  have later: "(\<exists>h. e = TimeoutFired h) \<and> clock s + 1000 \<le> clock s2
                \<and> callbacks s3 = callbacks s2 @ [OnMotionEnd]"
    if "run es s1 = Some s2" "step e s2 = Some s3" "isDetectingMotionRef s2"
      "\<not> isDetectingMotionRef s3" "e \<noteq> Setup" "e \<noteq> Cleanup" for es s2 e s3
  proof -
    from leaves_active[OF that(2-6)] obtain h d where
      h: "e = TimeoutFired h" "(h, d) \<in> set (timeouts s2)" "d \<le> clock s2"
         "callbacks s3 = callbacks s2 @ [OnMotionEnd]" by blast
    from due_after_run[OF due that(1)] h(2) have "clock s + 1000 \<le> d"
      by (auto simp: due_after_def)
    with h show ?thesis by auto
  qed
  show ?thesis
    unfolding s1_def[symmetric] using a t1 later by blast
qed

theorem active_motion_tick_witness:
  "timer_inv watching \<and> isDetectingMotionRef watching \<and> tick_ready dark True watching
   \<and> motion_tick dark watching
   \<and> callbacks (detectMotionLoop dark True watching) = [OnMotionStart]
   \<and> timeouts (detectMotionLoop dark True watching) = [(2, 1000)]
   \<and> (let s1 = detectMotionLoop dark True watching;
           s2 = s1\<lparr>clock := 1000\<rparr>;
           s3 = motion_timeout (s2\<lparr>timeouts := []\<rparr>)
       in run [TimePasses 1000] s1 = Some s2 \<and> step (TimeoutFired 2) s2 = Some s3
          \<and> isDetectingMotionRef s2 \<and> \<not> isDetectingMotionRef s3
          \<and> TimeoutFired 2 \<noteq> Setup \<and> TimeoutFired 2 \<noteq> Cleanup
          \<and> clock watching + 1000 \<le> clock s2
          \<and> callbacks s3 = callbacks s2 @ [OnMotionEnd])"
proof -
  have h1: "timer_inv watching" by (simp add: timer_inv_def watching_def)
  have h2: "isDetectingMotionRef watching" by (simp add: watching_def)
  have h3: "tick_ready dark True watching"
    by (simp add: tick_ready_def watching_def dark_def uniform_def HAVE_ENOUGH_DATA_def)
  have h4: "motion_tick dark watching" by code_simp
  have c: "callbacks watching = [OnMotionStart]" "timeoutSeq watching = 1" "clock watching = 0"
    by (simp_all add: watching_def)
  define s1 where "s1 = detectMotionLoop dark True watching"
  define s2 where "s2 = s1\<lparr>clock := 1000\<rparr>"
  define s3 where "s3 = motion_timeout (s2\<lparr>timeouts := []\<rparr>)"
  note tick = active_motion_tick[OF h1 h2 h3 h4, folded s1_def]
  have k: "clock s1 = 0" unfolding s1_def by code_simp
  have a: "callbacks s1 = [OnMotionStart]" "timeouts s1 = [(2, 1000)]" "isDetectingMotionRef s1"
    using tick c by simp_all
  have r: "run [TimePasses 1000] s1 = Some s2" using k by (simp add: s2_def)
  have st: "step (TimeoutFired 2) s2 = Some s3" using a by (simp add: s2_def s3_def)
  have i2: "isDetectingMotionRef s2" using a by (simp add: s2_def)
  have i3: "\<not> isDetectingMotionRef s3" by (simp add: s3_def motion_timeout_def)
  from tick r st i2 i3 have "clock watching + 1000 \<le> clock s2
      \<and> callbacks s3 = callbacks s2 @ [OnMotionEnd]"
    by blast
  with h1 h2 h3 h4 a r st i2 i3 show ?thesis
    unfolding Let_def s1_def[symmetric] s2_def[symmetric] s3_def[symmetric] by simp
qed

text \<open>
  C3 (as amended). When every sampled position of a well-formed current frame differs from
  the retained frame by more than the threshold, \<open>changedPixels\<close> is the number of sampled
  positions, \<open>\<lceil>width \<times> height / 4\<rceil>\<close>, which is \<open>width \<times> height / 4\<close> when 4 divides
  \<open>width \<times> height\<close>; the tick is classified "motion present", and if the state was idle the
  motion-start callback is invoked exactly once and the state becomes active.
\<close>

theorem all_samples_changed:
  assumes "tick_ready video ctx s" "lastImageDataRef s = Some lastImageData"
    "wf_frame (frame_of video)"
    "\<forall>k. 16 * k < length (pixels video) \<longrightarrow>
       sample_changed (data lastImageData) (pixels video) (pixelDiffThreshold (sensitivityRef s))
         (16 * k)"
  shows "changedPixels_of lastImageData video s = (videoWidth video * videoHeight video + 3) div 4
       \<and> (4 dvd videoWidth video * videoHeight video \<longrightarrow>
            changedPixels_of lastImageData video s = videoWidth video * videoHeight video div 4)
       \<and> motion_tick video s
       \<and> (\<not> isDetectingMotionRef s \<longrightarrow>
            callbacks (detectMotionLoop video ctx s) = callbacks s @ [OnMotionStart]
            \<and> isDetectingMotionRef (detectMotionLoop video ctx s))
       \<and> (isDetectingMotionRef s \<longrightarrow> callbacks (detectMotionLoop video ctx s) = callbacks s)"
proof -
  let ?w = "videoWidth video" and ?h = "videoHeight video"
  have len: "length (pixels video) = 4 * (?w * ?h)"
    using assms(3) by (simp add: wf_frame_def frame_of_def)
  have "changedPixels_of lastImageData video s = (length (pixels video) + 15) div 16"
    using count_changed_all[OF assms(4), of 0 0] by (simp add: changedPixels_of_def)
  then have n: "changedPixels_of lastImageData video s = (?w * ?h + 3) div 4"
    by (simp add: len)
  have pos: "0 < ?w" "0 < ?h" using assms(1) by (simp_all add: tick_ready_def)
  have m: "motion_tick video s"
    using motion_present_full[OF pos] by (simp add: motion_tick_def assms(2) n)
  have d: "detectMotionLoop video ctx s =
     request_next (motion_detected (s\<lparr>canvasRef := Some (?w, ?h),
                     lastImageDataRef := Some (frame_of video)\<rparr>))"
    using assms(1) m by (rule detectMotionLoop_motion)
  have e: "4 dvd ?w * ?h \<longrightarrow> (?w * ?h + 3) div 4 = ?w * ?h div 4"
    by (auto elim!: dvdE)
  show ?thesis
    using n m e by (simp add: d request_next_eq motion_detected_eq)
qed

theorem all_samples_changed_witness:
  "tick_ready bright True (seen dark) \<and> lastImageDataRef (seen dark) = Some (frame_of dark)
   \<and> wf_frame (frame_of bright)
   \<and> sample_changed (data (frame_of dark)) (pixels bright)
        (pixelDiffThreshold (sensitivityRef (seen dark))) 0
   \<and> changedPixels_of (frame_of dark) bright (seen dark) = 1
   \<and> \<not> isDetectingMotionRef (seen dark)
   \<and> callbacks (detectMotionLoop bright True (seen dark)) = [OnMotionStart]
   \<and> isDetectingMotionRef (detectMotionLoop bright True (seen dark))"
proof -
  have h1: "tick_ready bright True (seen dark)"
    by (simp add: tick_ready_def seen_def bright_def uniform_def HAVE_ENOUGH_DATA_def)
  have h2: "lastImageDataRef (seen dark) = Some (frame_of dark)" by (simp add: seen_def)
  have h3: "wf_frame (frame_of bright)" by code_simp
  have c0: "sample_changed (data (frame_of dark)) (pixels bright)
        (pixelDiffThreshold (sensitivityRef (seen dark))) 0" by code_simp
  have len: "length (pixels bright) = 16" by (simp add: bright_def uniform_def)
  have h4: "\<forall>k. 16 * k < length (pixels bright) \<longrightarrow>
       sample_changed (data (frame_of dark)) (pixels bright)
         (pixelDiffThreshold (sensitivityRef (seen dark))) (16 * k)"
  proof (intro allI impI)
    fix k :: nat
    assume "16 * k < length (pixels bright)"
    then have "k = 0" by (simp add: len)
    with c0 show "sample_changed (data (frame_of dark)) (pixels bright)
         (pixelDiffThreshold (sensitivityRef (seen dark))) (16 * k)" by simp
  qed
  have i: "\<not> isDetectingMotionRef (seen dark)" "callbacks (seen dark) = []"
    "videoWidth bright = 2" "videoHeight bright = 2"
    by (simp_all add: seen_def bright_def uniform_def)
  from all_samples_changed[OF h1 h2 h3 h4] h1 h2 h3 c0 i show ?thesis by simp
qed

text \<open>
  C3 as stated fails for a \<open>3 \<times> 3\<close> frame: all three sampled positions change, so
  \<open>changedPixels = 3\<close>, while \<open>width \<times> height / 4 = 9 / 4\<close>.
\<close>

theorem all_samples_changed_count_counterexample:
  "tick_ready (uniform 3 3 255) True (seen (uniform 3 3 0))
   \<and> lastImageDataRef (seen (uniform 3 3 0)) = Some (frame_of (uniform 3 3 0))
   \<and> width (frame_of (uniform 3 3 0)) = videoWidth (uniform 3 3 255)
   \<and> height (frame_of (uniform 3 3 0)) = videoHeight (uniform 3 3 255)
   \<and> wf_frame (frame_of (uniform 3 3 0)) \<and> wf_frame (frame_of (uniform 3 3 255))
   \<and> sample_changed (pixels (uniform 3 3 0)) (pixels (uniform 3 3 255))
        (pixelDiffThreshold (sensitivityRef (seen (uniform 3 3 0)))) 0
   \<and> sample_changed (pixels (uniform 3 3 0)) (pixels (uniform 3 3 255))
        (pixelDiffThreshold (sensitivityRef (seen (uniform 3 3 0)))) 16
   \<and> sample_changed (pixels (uniform 3 3 0)) (pixels (uniform 3 3 255))
        (pixelDiffThreshold (sensitivityRef (seen (uniform 3 3 0)))) 32
   \<and> length (pixels (uniform 3 3 255)) = 36
   \<and> changedPixels_of (frame_of (uniform 3 3 0)) (uniform 3 3 255) (seen (uniform 3 3 0)) = 3
   \<and> totalPixelsChecked 3 3 = Num (9 / 4)
   \<and> Num (of_nat (changedPixels_of (frame_of (uniform 3 3 0)) (uniform 3 3 255)
                     (seen (uniform 3 3 0)))) \<noteq> totalPixelsChecked 3 3"
  by code_simp

text \<open>
  C4 (as amended). \<^verbatim>\<open>detectMotionLoop\<close> never looks at the dimensions of the retained
  frame: a ready tick with a retained frame of any size compares the two buffers offset by
  offset over the current buffer. A sampled position outside the retained buffer never
  counts as changed (the read yields \<^verbatim>\<open>undefined\<close>, nothing is raised), so the count is at
  most the number of sampled positions inside both buffers; the current frame becomes the
  retained one; and the tick is classified from that count as any other tick is: motion-start
  is invoked exactly when the tick is "motion present" and the state was idle.
\<close>

theorem retained_frame_compared:
  assumes "tick_ready video ctx s" "lastImageDataRef s = Some lastImageData"
  shows "lastImageDataRef (detectMotionLoop video ctx s) = Some (frame_of video)
       \<and> changedPixels_of lastImageData video s
           \<le> (min (length (data lastImageData)) (length (pixels video)) + 15) div 16
       \<and> (\<forall>i. length (data lastImageData) \<le> i \<longrightarrow>
             \<not> sample_changed (data lastImageData) (pixels video)
                 (pixelDiffThreshold (sensitivityRef s)) i)
       \<and> isDetectingMotionRef (detectMotionLoop video ctx s)
           = (isDetectingMotionRef s \<or> motion_tick video s)
       \<and> callbacks (detectMotionLoop video ctx s)
           = (if motion_tick video s \<and> \<not> isDetectingMotionRef s
              then callbacks s @ [OnMotionStart] else callbacks s)"
proof -
  have a: "changedPixels_of lastImageData video s
           \<le> (min (length (data lastImageData)) (length (pixels video)) + 15) div 16"
    using count_changed_le[of "data lastImageData" "pixels video"
        "pixelDiffThreshold (sensitivityRef s)" 0 0]
    by (simp add: changedPixels_of_def)
  have b: "\<forall>i. length (data lastImageData) \<le> i \<longrightarrow>
             \<not> sample_changed (data lastImageData) (pixels video)
                 (pixelDiffThreshold (sensitivityRef s)) i"
    by (simp add: sample_changed_outside)
  have c: "lastImageDataRef (detectMotionLoop video ctx s) = Some (frame_of video)
       \<and> isDetectingMotionRef (detectMotionLoop video ctx s)
           = (isDetectingMotionRef s \<or> motion_tick video s)
       \<and> callbacks (detectMotionLoop video ctx s)
           = (if motion_tick video s \<and> \<not> isDetectingMotionRef s
              then callbacks s @ [OnMotionStart] else callbacks s)"
  proof (cases "motion_tick video s")
    case True
    with assms(1) show ?thesis
      by (simp add: detectMotionLoop_motion request_next_eq motion_detected_eq)
  next
    case False
    with assms show ?thesis
      by (simp add: detectMotionLoop_still request_next_eq)
  qed
  from a b c show ?thesis by blast
qed

theorem retained_frame_compared_witness:
  "tick_ready bright True (seen (uniform 4 2 0))
   \<and> lastImageDataRef (seen (uniform 4 2 0)) = Some (frame_of (uniform 4 2 0))
   \<and> lastImageDataRef (detectMotionLoop bright True (seen (uniform 4 2 0))) = Some (frame_of bright)
   \<and> changedPixels_of (frame_of (uniform 4 2 0)) bright (seen (uniform 4 2 0)) \<le> 1
   \<and> (32 \<le> (32::nat) \<and> \<not> sample_changed (data (frame_of (uniform 4 2 0))) (pixels bright)
                 (pixelDiffThreshold (sensitivityRef (seen (uniform 4 2 0)))) 32)"
proof -
  have h1: "tick_ready bright True (seen (uniform 4 2 0))"
    by (simp add: tick_ready_def seen_def bright_def uniform_def HAVE_ENOUGH_DATA_def)
  have h2: "lastImageDataRef (seen (uniform 4 2 0)) = Some (frame_of (uniform 4 2 0))"
    by (simp add: seen_def)
  have l: "length (data (frame_of (uniform 4 2 0))) = 32" "length (pixels bright) = 16"
    by (simp_all add: frame_of_def uniform_def bright_def)
  from retained_frame_compared[OF h1 h2] h1 h2 l show ?thesis by simp
qed

text \<open>
  C4 as stated fails: with a dark \<open>4 \<times> 2\<close> frame retained, a bright \<open>2 \<times> 2\<close> frame is
  compared with it, one changed pixel is counted, motion-start is invoked and the state
  becomes active.
\<close>

theorem mismatched_frames_counterexample:
  "lastImageDataRef (seen (uniform 4 2 0)) = Some (frame_of (uniform 4 2 0))
   \<and> width (frame_of (uniform 4 2 0)) \<noteq> videoWidth bright
   \<and> \<not> isDetectingMotionRef (seen (uniform 4 2 0))
   \<and> callbacks (seen (uniform 4 2 0)) = []
   \<and> changedPixels_of (frame_of (uniform 4 2 0)) bright (seen (uniform 4 2 0)) = 1
   \<and> step (AnimationFrame 2 bright True) (seen (uniform 4 2 0)) = Some watching
   \<and> callbacks watching = [OnMotionStart] \<and> isDetectingMotionRef watching"
  by code_simp

text \<open>
  C5. A tick that finds no retained frame invokes no callback, changes neither the motion
  state nor the silence timeout, and, when it is ready to read a frame, stores that frame
  as the retained one (when it is not ready, nothing is retained). A call of \<^verbatim>\<open>setup\<close>
  clears the retained frame and its continuations do not set one, so the first ready tick
  after an acquisition is such a tick.
\<close>

theorem first_tick_stores:
  assumes "lastImageDataRef s = None"
  shows "callbacks (detectMotionLoop video ctx s) = callbacks s
       \<and> isDetectingMotionRef (detectMotionLoop video ctx s) = isDetectingMotionRef s
       \<and> timeouts (detectMotionLoop video ctx s) = timeouts s
       \<and> motionTimeoutRef (detectMotionLoop video ctx s) = motionTimeoutRef s
       \<and> (tick_ready video ctx s \<longrightarrow>
            lastImageDataRef (detectMotionLoop video ctx s) = Some (frame_of video))
       \<and> (\<not> tick_ready video ctx s \<longrightarrow> lastImageDataRef (detectMotionLoop video ctx s) = None)
       \<and> lastImageDataRef (setup_call s0) = None
       \<and> lastImageDataRef (setup_granted s0) = lastImageDataRef s0
       \<and> lastImageDataRef (setup_playing s0) = lastImageDataRef s0"
proof (cases "tick_ready video ctx s")
  case True
  with assms show ?thesis
    by (simp add: detectMotionLoop_first request_next_eq setup_call_def Let_def cleanup_refs
        setup_granted_eq setup_playing_def)
next
  case False
  with assms show ?thesis
    by (simp add: detectMotionLoop_not_ready request_next_eq setup_call_def Let_def cleanup_refs
        setup_granted_eq setup_playing_def)
qed

theorem first_tick_stores_witness:
  "lastImageDataRef started = None \<and> tick_ready dark True started
   \<and> callbacks (detectMotionLoop dark True started) = []
   \<and> \<not> isDetectingMotionRef (detectMotionLoop dark True started)
   \<and> timeouts (detectMotionLoop dark True started) = []
   \<and> lastImageDataRef (detectMotionLoop dark True started) = Some (frame_of dark)"
proof -
  have h: "lastImageDataRef started = None" by (simp add: started_def)
  have r: "tick_ready dark True started"
    by (simp add: tick_ready_def started_def dark_def uniform_def HAVE_ENOUGH_DATA_def)
  from first_tick_stores[OF h, of dark True] h r show ?thesis by (simp add: started_def)
qed

section \<open>The lifecycle\<close>

text \<open>
  C6. \<^verbatim>\<open>cleanup\<close> (\<^verbatim>\<open>disable()\<close>) is idempotent: a second call changes nothing. After
  it no stream, frame request, retained frame or active motion state is held in the refs;
  and in a single session nothing is left pending in the host either: no frame request, no
  timeout, no live stream.
\<close>

theorem cleanup_idempotent:
  "cleanup (cleanup s) = cleanup s
   \<and> enabled_changed False (enabled_changed False s) = enabled_changed False s
   \<and> stream (cleanup s) = None \<and> streamRef (cleanup s) = None \<and> requestRef (cleanup s) = None
   \<and> lastImageDataRef (cleanup s) = None \<and> \<not> isDetectingMotionRef (cleanup s)
   \<and> (single_session s \<longrightarrow>
        frameRequests (cleanup s) = [] \<and> timeouts (cleanup s) = [] \<and> liveStreams (cleanup s) = []
        \<and> motionTimeoutRef (cleanup s) = None)"
proof -
  have "motionTimeoutRef (cleanup s) = None" if "single_session s"
    using that by (simp add: single_session_def motionTimeoutRef_cleanup)
  then show ?thesis
    by (simp add: cleanup_idem enabled_changed_eq cleanup_refs cleanup_clears)
qed

theorem cleanup_idempotent_witness:
  "single_session watching \<and> frameRequests watching = [3] \<and> timeouts watching = [(1, 1000)]
   \<and> liveStreams watching = [1] \<and> isDetectingMotionRef watching
   \<and> frameRequests (cleanup watching) = [] \<and> timeouts (cleanup watching) = []
   \<and> liveStreams (cleanup watching) = [] \<and> motionTimeoutRef (cleanup watching) = None
   \<and> cleanup (cleanup watching) = cleanup watching"
  using cleanup_idempotent[of watching] single_session_watching
  by (simp add: watching_def)

text \<open>
  What \<^verbatim>\<open>setup\<close> guarantees when it is called in a single session with no camera request
  under way: the whole teardown has run when it suspends (no stream is live, no frame
  request or timeout is pending). Whatever happens next, short of another \<^verbatim>\<open>setup\<close>,
  there is never more than one live stream or more than one pending frame request, no
  stream of the previous session is live again, and whenever the loop runs it is one loop on
  one live stream, both held in the refs. Once the camera is granted and \<^verbatim>\<open>play()\<close>
  fulfilled, exactly one fresh stream is live and exactly one frame request is pending.
\<close>

lemma reenable_single_session:
  assumes "single_session s" "pendingGetUserMedia s = 0" "Setup \<notin> set es"
    "run es (setup_call s) = Some s'"
  shows "enabled_changed True s = setup_call s
       \<and> liveStreams (setup_call s) = [] \<and> frameRequests (setup_call s) = []
       \<and> timeouts (setup_call s) = [] \<and> srcObject (setup_call s) = []
       \<and> length (liveStreams s') \<le> 1 \<and> length (frameRequests s') \<le> 1
       \<and> (\<forall>ms \<in> set (liveStreams s). ms \<notin> set (liveStreams s'))
       \<and> (frameRequests s' \<noteq> [] \<longrightarrow>
            length (liveStreams s') = 1 \<and> length (frameRequests s') = 1
            \<and> map Some (liveStreams s') = [streamRef s']
            \<and> map Some (frameRequests s') = [requestRef s'])
       \<and> (\<exists>s''. run [GetUserMediaResolved, PlayResolved (Suc (videoSeq s))] (setup_call s) = Some s''
             \<and> liveStreams s'' = [Suc (streamSeq s)] \<and> streamRef s'' = Some (Suc (streamSeq s))
             \<and> frameRequests s'' = [Suc (frameSeq s)] \<and> requestRef s'' = Some (Suc (frameSeq s)))"
proof -
  have off: "liveStreams (setup_call s) = []" "frameRequests (setup_call s) = []"
    "timeouts (setup_call s) = []" "srcObject (setup_call s) = []"
    "streamSeq (setup_call s) = streamSeq s" "pendingGetUserMedia (setup_call s) = 1"
    "videoSeq (setup_call s) = videoSeq s" "frameSeq (setup_call s) = frameSeq s"
    "pendingPlay (setup_call s) = pendingPlay s"
    by (simp_all add: setup_call_def Let_def cleanup_clears[OF assms(1)] cleanup_kept assms(2))
  have ss: "single_session s'"
    using single_session_run[OF single_session_setup_call[OF assms(1,2)] assms(3,4)] .
  from ss have one: "length (liveStreams s') \<le> 1" "length (frameRequests s') \<le> 1"
    by (auto simp: single_session_def)
  have "\<forall>ms \<in> set (liveStreams s'). streamSeq s < ms"
    using newer_run[of "streamSeq s" "setup_call s" es s'] off assms(4) by simp
  moreover from assms(1) have "\<forall>ms \<in> set (liveStreams s). ms \<le> streamSeq s"
    by (simp add: single_session_def)
  ultimately have old: "\<forall>ms \<in> set (liveStreams s). ms \<notin> set (liveStreams s')" by fastforce
  have loop: "length (liveStreams s') = 1 \<and> length (frameRequests s') = 1
            \<and> map Some (liveStreams s') = [streamRef s']
            \<and> map Some (frameRequests s') = [requestRef s']" if "frameRequests s' \<noteq> []"
  proof -
    from ss that have "map Some (frameRequests s') = [requestRef s']" "liveStreams s' \<noteq> []"
      by (auto simp: single_session_def)
    moreover from ss this(2) have "map Some (liveStreams s') = [streamRef s']"
      by (auto simp: single_session_def)
    ultimately show ?thesis by (auto simp: map_eq_Cons_conv)
  qed
  have completes: "\<exists>s''. run [GetUserMediaResolved, PlayResolved (Suc (videoSeq s))] (setup_call s) = Some s''
             \<and> liveStreams s'' = [Suc (streamSeq s)] \<and> streamRef s'' = Some (Suc (streamSeq s))
             \<and> frameRequests s'' = [Suc (frameSeq s)] \<and> requestRef s'' = Some (Suc (frameSeq s))"
    using off by (simp add: step_eqs has_source_def)
  show ?thesis
    using off(1-4) one old loop completes by (simp add: enabled_changed_eq)
qed

lemma reenable_single_session_running:
  "single_session watching \<and> pendingGetUserMedia watching = 0 \<and> liveStreams watching = [1]
   \<and> Setup \<notin> set [GetUserMediaResolved, PlayResolved 2, AnimationFrame 4 dark True]
   \<and> (\<exists>s'. run [GetUserMediaResolved, PlayResolved 2, AnimationFrame 4 dark True]
               (setup_call watching) = Some s'
          \<and> liveStreams s' = [2] \<and> frameRequests s' = [5] \<and> streamRef s' = Some 2
          \<and> requestRef s' = Some 5 \<and> 1 \<notin> set (liveStreams s'))"
proof -
  let ?es = "[GetUserMediaResolved, PlayResolved 2, AnimationFrame 4 dark True]"
  have p: "pendingGetUserMedia watching = 0" "liveStreams watching = [1]"
    by (simp_all add: watching_def)
  have n: "Setup \<notin> set ?es" by simp
  have "case run ?es (setup_call watching) of None \<Rightarrow> False
        | Some s' \<Rightarrow> liveStreams s' = [2] \<and> frameRequests s' = [5]"
    by code_simp
  then obtain s' where r: "run ?es (setup_call watching) = Some s'"
    and v: "liveStreams s' = [2]" "frameRequests s' = [5]"
    by (auto split: option.splits)
  from reenable_single_session[OF single_session_watching p(1) n r] v p
  have "streamRef s' = Some 2 \<and> requestRef s' = Some 5 \<and> 1 \<notin> set (liveStreams s')"
    by simp
  with single_session_watching p n r v show ?thesis by blast
qed

text \<open>
  C7, evaluated where it fails. \<^verbatim>\<open>setup\<close> is called while an earlier call still waits
  for the camera (directly, or as React re-runs the effect: \<^verbatim>\<open>cleanup\<close>, then
  \<^verbatim>\<open>setup\<close>). The teardown finds every ref empty and stops nothing; both calls then run
  to completion: two streams are live, of which the refs hold only the second, and two
  frame requests are pending, so \<^verbatim>\<open>detectMotionLoop\<close> runs twice per frame. A later
  \<^verbatim>\<open>cleanup\<close> stops only what the refs hold: the first stream stays live and the other
  loop keeps running.
\<close>

theorem setup_during_getUserMedia:
  "(case run [Setup, Setup, GetUserMediaResolved, GetUserMediaResolved, PlayResolved 1,
              PlayResolved 2] (mount (Num 50)) of
      None \<Rightarrow> False
    | Some s \<Rightarrow> liveStreams s = [1, 2] \<and> streamRef s = Some 2
               \<and> frameRequests s = [1, 2] \<and> requestRef s = Some 2)
   \<and> (case run [Setup, Cleanup, Setup, GetUserMediaResolved, GetUserMediaResolved,
                PlayResolved 1, PlayResolved 2] (mount (Num 50)) of
        None \<Rightarrow> False
      | Some s \<Rightarrow> liveStreams s = [1, 2] \<and> streamRef s = Some 2
                 \<and> frameRequests s = [1, 2] \<and> requestRef s = Some 2)
   \<and> (case run [Setup, Setup, GetUserMediaResolved, GetUserMediaResolved, PlayResolved 1,
                PlayResolved 2, Cleanup] (mount (Num 50)) of
        None \<Rightarrow> False
      | Some s \<Rightarrow> liveStreams s = [1] \<and> streamRef s = None
                 \<and> frameRequests s = [1] \<and> requestRef s = None)"
  by code_simp

text \<open>
  C8, evaluated where it fails. \<^verbatim>\<open>cleanup\<close> is called while \<^verbatim>\<open>setup\<close> waits for the
  camera; the camera is then granted and \<^verbatim>\<open>play()\<close> fulfilled, the loop starts, and a
  bright frame after a dark one invokes the motion-start callback: after \<^verbatim>\<open>disable()\<close>
  returned, a stream is live, a frame request and a timeout are pending, and a callback
  has fired.
\<close>

theorem cleanup_during_getUserMedia:
  "run [Setup, Cleanup, GetUserMediaResolved, PlayResolved 1, AnimationFrame 1 dark True,
        AnimationFrame 2 bright True] (mount (Num 50)) = Some watching
   \<and> callbacks watching = [OnMotionStart] \<and> liveStreams watching = [1]
   \<and> frameRequests watching = [3] \<and> timeouts watching = [(1, 1000)]"
  by code_simp

text \<open>
  C9. When \<^verbatim>\<open>getUserMedia\<close> is rejected, \<^verbatim>\<open>onError\<close> is invoked exactly once, with the
  message of the error (or a fixed message for a value that is no \<^verbatim>\<open>Error\<close>), unless
  the error is a \<^verbatim>\<open>DOMException\<close> named \<^verbatim>\<open>AbortError\<close>, which is dropped silently. No
  frame request is made and no new camera request: in a single session the hook is then off
  and stays off, without any further callback, until \<^verbatim>\<open>setup\<close> is called again. A
  rejected \<^verbatim>\<open>play()\<close> is handled by the same \<^verbatim>\<open>catch\<close>; the rejection of a start that
  \<^verbatim>\<open>cleanup\<close> interrupted is an \<^verbatim>\<open>AbortError\<close> and is never reported.
\<close>

theorem setup_failure_reported_once:
  "(pendingGetUserMedia s \<noteq> 0 \<longrightarrow>
      (\<exists>s'. step (GetUserMediaRejected err) s = Some s'
         \<and> callbacks s' = callbacks s @
              (case err of
                 DOMException name message \<Rightarrow>
                   if name = ''AbortError'' then [] else [OnError message]
               | Error name message \<Rightarrow> [OnError message]
               | Thrown \<Rightarrow> [OnError ''An unknown error occurred while accessing the camera.''])
         \<and> frameRequests s' = frameRequests s \<and> requestRef s' = requestRef s
         \<and> liveStreams s' = liveStreams s \<and> streamRef s' = streamRef s
         \<and> pendingPlay s' = pendingPlay s
         \<and> pendingGetUserMedia s' = pendingGetUserMedia s - 1
         \<and> (single_session s \<longrightarrow>
               quiet s' \<and> (\<forall>es s''. Setup \<notin> set es \<and> run es s' = Some s''
                             \<longrightarrow> quiet s'' \<and> callbacks s'' = callbacks s'))))
   \<and> (step (PlayRejected v err) s = Some s2 \<longrightarrow>
        callbacks s2 = callbacks s @
              (case err of
                 DOMException name message \<Rightarrow>
                   if name = ''AbortError'' then [] else [OnError message]
               | Error name message \<Rightarrow> [OnError message]
               | Thrown \<Rightarrow> [OnError ''An unknown error occurred while accessing the camera.''])
        \<and> frameRequests s2 = frameRequests s \<and> requestRef s2 = requestRef s
        \<and> pendingGetUserMedia s2 = pendingGetUserMedia s
        \<and> (\<not> has_source s v \<longrightarrow> callbacks s2 = callbacks s))"
proof -
  define s' where "s' = setup_catch err (s\<lparr>pendingGetUserMedia := pendingGetUserMedia s - 1\<rparr>)"
  have q: "quiet s'" if "single_session s" "pendingGetUserMedia s \<noteq> 0"
  proof -
    from that have p1: "pendingGetUserMedia s = 1" by (simp add: single_session_def)
    with that(1) show ?thesis by (simp add: single_session_def quiet_def s'_def setup_catch_eq)
  qed
  have a: "pendingGetUserMedia s \<noteq> 0 \<Longrightarrow> step (GetUserMediaRejected err) s = Some s'"
    by (simp add: s'_def)
  have b: "callbacks s' = callbacks s @
              (case err of
                 DOMException name message \<Rightarrow>
                   if name = ''AbortError'' then [] else [OnError message]
               | Error name message \<Rightarrow> [OnError message]
               | Thrown \<Rightarrow> [OnError ''An unknown error occurred while accessing the camera.''])"
    "frameRequests s' = frameRequests s" "requestRef s' = requestRef s"
    "liveStreams s' = liveStreams s" "streamRef s' = streamRef s"
    "pendingPlay s' = pendingPlay s" "pendingGetUserMedia s' = pendingGetUserMedia s - 1"
    by (simp_all add: s'_def setup_catch_eq)
  have c: "quiet s'' \<and> callbacks s'' = callbacks s'"
    if "single_session s" "pendingGetUserMedia s \<noteq> 0" "Setup \<notin> set es" "run es s' = Some s''"
    for es s''
    using quiet_run[OF q[OF that(1,2)] that(3,4)] .
  have first: "pendingGetUserMedia s \<noteq> 0 \<longrightarrow>
      (\<exists>s'. step (GetUserMediaRejected err) s = Some s'
         \<and> callbacks s' = callbacks s @
              (case err of
                 DOMException name message \<Rightarrow>
                   if name = ''AbortError'' then [] else [OnError message]
               | Error name message \<Rightarrow> [OnError message]
               | Thrown \<Rightarrow> [OnError ''An unknown error occurred while accessing the camera.''])
         \<and> frameRequests s' = frameRequests s \<and> requestRef s' = requestRef s
         \<and> liveStreams s' = liveStreams s \<and> streamRef s' = streamRef s
         \<and> pendingPlay s' = pendingPlay s
         \<and> pendingGetUserMedia s' = pendingGetUserMedia s - 1
         \<and> (single_session s \<longrightarrow>
               quiet s' \<and> (\<forall>es s''. Setup \<notin> set es \<and> run es s' = Some s''
                             \<longrightarrow> quiet s'' \<and> callbacks s'' = callbacks s')))"
    using a b q c by blast
  have second: "step (PlayRejected v err) s = Some s2 \<longrightarrow>
        callbacks s2 = callbacks s @
              (case err of
                 DOMException name message \<Rightarrow>
                   if name = ''AbortError'' then [] else [OnError message]
               | Error name message \<Rightarrow> [OnError message]
               | Thrown \<Rightarrow> [OnError ''An unknown error occurred while accessing the camera.''])
        \<and> frameRequests s2 = frameRequests s \<and> requestRef s2 = requestRef s
        \<and> pendingGetUserMedia s2 = pendingGetUserMedia s
        \<and> (\<not> has_source s v \<longrightarrow> callbacks s2 = callbacks s)"
    by (auto simp: setup_catch_eq is_abort_def split: if_splits js_exception.splits)
  from first second show ?thesis by (rule conjI)
qed

theorem setup_failure_reported_once_witness:
  "pendingGetUserMedia acquiring \<noteq> 0 \<and> single_session acquiring
   \<and> (\<exists>s'. step (GetUserMediaRejected (DOMException ''NotAllowedError'' ''Permission denied''))
               acquiring = Some s'
          \<and> callbacks s' = [OnError ''Permission denied''] \<and> quiet s' \<and> frameRequests s' = []
          \<and> Setup \<notin> set [TimePasses 1000]
          \<and> run [TimePasses 1000] s' = Some (s'\<lparr>clock := 1000\<rparr>)
          \<and> callbacks (s'\<lparr>clock := 1000\<rparr>) = [OnError ''Permission denied''])
   \<and> step (PlayRejected 1 (DOMException ''AbortError'' ''The operation was aborted''))
        interrupted = Some (interrupted\<lparr>pendingPlay := []\<rparr>)
   \<and> \<not> has_source interrupted 1
   \<and> callbacks (interrupted\<lparr>pendingPlay := []\<rparr>) = []"
proof -
  let ?denied = "DOMException ''NotAllowedError'' ''Permission denied''"
  let ?abort = "DOMException ''AbortError'' ''The operation was aborted''"
  have ss: "single_session acquiring"
    by (simp add: single_session_def timer_inv_def acquiring_def mount_def has_source_def)
  have p: "pendingGetUserMedia acquiring \<noteq> 0" "callbacks acquiring = []"
    "frameRequests acquiring = []"
    by (simp_all add: acquiring_def mount_def)
  from setup_failure_reported_once[of acquiring ?denied] p ss
  obtain s1 where s1: "step (GetUserMediaRejected ?denied) acquiring = Some s1"
    "callbacks s1 = [OnError ''Permission denied'']" "quiet s1" "frameRequests s1 = []"
    and later: "\<forall>es s''. Setup \<notin> set es \<and> run es s1 = Some s''
                  \<longrightarrow> quiet s'' \<and> callbacks s'' = callbacks s1"
    by auto
  have r1: "run [TimePasses 1000] s1 = Some (s1\<lparr>clock := clock s1 + 1000\<rparr>)" by simp
  have "clock s1 = 0"
    using s1(1) by (auto simp: setup_catch_eq acquiring_def mount_def split: if_splits)
  with r1 have r1': "run [TimePasses 1000] s1 = Some (s1\<lparr>clock := 1000\<rparr>)" by simp
  from later r1' s1(2) have c1: "callbacks (s1\<lparr>clock := 1000\<rparr>) = [OnError ''Permission denied'']"
    by simp
  have g: "step (PlayRejected 1 ?abort) interrupted = Some (interrupted\<lparr>pendingPlay := []\<rparr>)"
    "\<not> has_source interrupted 1" "callbacks interrupted = []"
    by (simp_all add: interrupted_def mount_def is_abort_def has_source_def setup_catch_eq)
  from setup_failure_reported_once[of interrupted ?abort 1 "interrupted\<lparr>pendingPlay := []\<rparr>"] g
  have c2: "callbacks (interrupted\<lparr>pendingPlay := []\<rparr>) = []" by simp
  from ss p(1) s1 r1' c1 g c2 show ?thesis by auto
qed

text \<open>
  C10. \<^verbatim>\<open>cleanup\<close> invokes no callback. If the state was active with a silence timeout
  pending, the timeout is cancelled and the state is reset to idle without the motion-end
  callback; and when no camera request is under way, nothing is invoked afterwards until
  \<^verbatim>\<open>setup\<close> is called again, so a motion-start can stay unmatched for good.
\<close>

theorem cleanup_silent:
  "callbacks (cleanup s) = callbacks s \<and> \<not> isDetectingMotionRef (cleanup s)
   \<and> (timer_inv s \<longrightarrow> timeouts (cleanup s) = [] \<and> motionTimeoutRef (cleanup s) = None)
   \<and> (single_session s \<and> pendingGetUserMedia s = 0 \<and> Setup \<notin> set es
        \<and> run es (cleanup s) = Some s' \<longrightarrow> callbacks s' = callbacks s)"
proof -
  have "callbacks s' = callbacks s"
    if "single_session s" "pendingGetUserMedia s = 0" "Setup \<notin> set es"
      "run es (cleanup s) = Some s'"
    using quiet_run[OF quiet_cleanup[OF that(1,2)] that(3,4)] by (simp add: cleanup_kept)
  then show ?thesis
    by (auto simp: cleanup_kept cleanup_refs timeouts_cleanup motionTimeoutRef_cleanup)
qed

theorem cleanup_silent_witness:
  "timer_inv watching \<and> single_session watching \<and> pendingGetUserMedia watching = 0
   \<and> isDetectingMotionRef watching \<and> timeouts watching = [(1, 1000)]
   \<and> callbacks watching = [OnMotionStart]
   \<and> Setup \<notin> set [TimePasses 5000]
   \<and> run [TimePasses 5000] (cleanup watching) = Some ((cleanup watching)\<lparr>clock := 5000\<rparr>)
   \<and> callbacks ((cleanup watching)\<lparr>clock := 5000\<rparr>) = [OnMotionStart]
   \<and> timeouts (cleanup watching) = [] \<and> \<not> isDetectingMotionRef (cleanup watching)"
proof -
  have t: "timer_inv watching" by (simp add: timer_inv_def watching_def)
  have r: "run [TimePasses 5000] (cleanup watching) = Some ((cleanup watching)\<lparr>clock := 5000\<rparr>)"
    by (simp add: cleanup_kept watching_def)
  from cleanup_silent[of watching "[TimePasses 5000]" "(cleanup watching)\<lparr>clock := 5000\<rparr>"]
    t single_session_watching r
  show ?thesis by (simp add: watching_def)
qed

end
